theory Spec2Isabelle
  imports
    Main
    "HOL-Library.Char_ord"
    "HOL-Library.List_Lexorder"
    "HOL-Library.Product_Lexorder"
begin

section \<open>Text and character classes\<close>

text \<open>
  A Python \<open>str\<close> is a sequence of code points. The model is \<open>string\<close>, a list of
  \<open>char\<close>, where a \<open>char\<close> is read as the code point of the same number, so the texts
  covered are those over U+0000 .. U+00FF and \<open>length\<close> is Python's \<open>len\<close>. The
  character classes below are the ones Python 3 uses for \<open>str\<close> patterns and methods on
  that range: \<open>\s\<close> and \<open>str.isspace\<close>, \<open>\w\<close>, \<open>str.isalpha\<close>, \<open>str.isupper\<close>
  and \<open>str.lower\<close>. The order on \<open>string\<close> is the lexicographic order by code point,
  which is how Python compares \<open>str\<close> values.
\<close>

definition ord :: "char \<Rightarrow> nat" where
  "ord c = of_char c"

definition between :: "nat \<Rightarrow> nat \<Rightarrow> nat \<Rightarrow> bool" where
  "between lo hi n = (lo \<le> n \<and> n \<le> hi)"

definition isspace :: "char \<Rightarrow> bool" where
  "isspace c = (between 9 13 (ord c) \<or> between 28 32 (ord c) \<or> ord c = 133 \<or> ord c = 160)"

definition ascii_letter :: "char \<Rightarrow> bool" where
  \<comment> \<open>the class \<open>[A-Za-z]\<close>\<close>
  "ascii_letter c = (between 65 90 (ord c) \<or> between 97 122 (ord c))"

definition isalpha :: "char \<Rightarrow> bool" where
  "isalpha c = (ascii_letter c \<or> ord c = 170 \<or> ord c = 181 \<or> ord c = 186
     \<or> between 192 214 (ord c) \<or> between 216 246 (ord c) \<or> between 248 255 (ord c))"

definition isword :: "char \<Rightarrow> bool" where
  \<comment> \<open>the class \<open>\w\<close>: alphanumeric (letters, digits, other numerics) or underscore\<close>
  "isword c = (isalpha c \<or> between 48 57 (ord c) \<or> ord c = 95
     \<or> between 178 179 (ord c) \<or> ord c = 185 \<or> between 188 190 (ord c))"

definition isupper :: "char \<Rightarrow> bool" where
  "isupper c = (between 65 90 (ord c) \<or> between 192 214 (ord c) \<or> between 216 222 (ord c))"

definition lower_char :: "char \<Rightarrow> char" where
  "lower_char c = (if isupper c then char_of (ord c + 32) else c)"

definition lower :: "string \<Rightarrow> string" where
  \<comment> \<open>\<open>s.lower()\<close>\<close>
  "lower s = map lower_char s"

definition strip :: "string \<Rightarrow> string" where
  \<comment> \<open>\<open>s.strip()\<close>\<close>
  "strip s = rev (dropWhile isspace (rev (dropWhile isspace s)))"

section \<open>Segmenter\<close>

subsection \<open>split_sentences\<close>

text \<open>
  \<open>re.split(r"(?<=[.!?])\s+", s)\<close>: a separator starts at a whitespace character whose
  predecessor in the string is one of \<open>.\<close>, \<open>!\<close>, \<open>?\<close>, and takes the whole whitespace
  run. \<open>prev\<close> is the character before the current position (\<open>None\<close> at the start of the
  string), \<open>cur\<close> the piece read so far, reversed.
\<close>

definition sentence_end :: "char option \<Rightarrow> bool" where
  "sentence_end prev = (prev = Some CHR ''.'' \<or> prev = Some CHR ''!'' \<or> prev = Some CHR ''?'')"

function re_split :: "char option \<Rightarrow> string \<Rightarrow> string \<Rightarrow> string list" where
  "re_split prev cur [] = [rev cur]"
| "re_split prev cur (c # cs) =
     (if isspace c \<and> sentence_end prev
      then rev cur # re_split (Some (last (c # takeWhile isspace cs))) [] (dropWhile isspace cs)
      else re_split (Some c) (c # cur) cs)"
  by pat_completeness auto
termination
  by (relation "measure (\<lambda>(prev, cur, s). length s)")
     (auto simp: le_imp_less_Suc length_dropWhile_le)

definition split_sentences :: "string \<Rightarrow> string list" where
  "split_sentences text =
     (let sentences = (if strip text \<noteq> [] then re_split None [] (strip text) else [])
      in filter (\<lambda>s. s \<noteq> []) sentences)"

subsection \<open>tokenize\<close>

text \<open>
  \<open>re.findall(r"[A-Za-z]+(?:[-'][A-Za-z]+)*", text)\<close>. \<open>token_tail\<close> matches the
  repeated group \<open>(?:[-'][A-Za-z]+)*\<close> at the head of its argument and returns the
  matched text with what follows it.
\<close>

definition joiner :: "char \<Rightarrow> bool" where
  "joiner c = (c = CHR ''-'' \<or> c = CHR 0x27)"

function token_tail :: "string \<Rightarrow> string \<times> string" where
  "token_tail [] = ([], [])"
| "token_tail [d] = ([], [d])"
| "token_tail (d # e # r) =
     (if joiner d \<and> ascii_letter e
      then (let (m, rest) = token_tail (dropWhile ascii_letter r)
            in (d # e # takeWhile ascii_letter r @ m, rest))
      else ([], d # e # r))"
  by pat_completeness auto
termination
  by (relation "measure length") (auto simp: le_imp_less_Suc length_dropWhile_le less_SucI)

lemma token_tail_length: "length (snd (token_tail s)) \<le> length s"
proof (induction s rule: token_tail.induct)
  case (3 d e r)
  have "length (dropWhile ascii_letter r) \<le> length r"
    by (rule length_dropWhile_le)
  with 3 show ?case
    by (auto split: prod.splits)
qed simp_all

function tokenize :: "string \<Rightarrow> string list" where
  "tokenize [] = []"
| "tokenize (c # cs) =
     (if ascii_letter c
      then (let (m, rest) = token_tail (dropWhile ascii_letter cs)
            in (c # takeWhile ascii_letter cs @ m) # tokenize rest)
      else tokenize cs)"
  by pat_completeness auto
termination
proof (relation "measure length")
  fix c cs x m rest
  assume "x = token_tail (dropWhile ascii_letter cs)" and "(m, rest) = x"
  then have "rest = snd (token_tail (dropWhile ascii_letter cs))"
    by (metis snd_conv)
  moreover have "length (snd (token_tail (dropWhile ascii_letter cs))) \<le> length (dropWhile ascii_letter cs)"
    by (rule token_tail_length)
  moreover have "length (dropWhile ascii_letter cs) \<le> length cs"
    by (rule length_dropWhile_le)
  ultimately show "(rest, c # cs) \<in> measure length"
    by simp
qed simp_all

subsection \<open>normalize_sentence\<close>

text \<open>
  \<open>re.sub(r"[...]+", " ", s)\<close> for a character class: every maximal run of characters of
  the class becomes one space.
\<close>

function re_sub_runs :: "(char \<Rightarrow> bool) \<Rightarrow> string \<Rightarrow> string" where
  "re_sub_runs P [] = []"
| "re_sub_runs P (c # cs) =
     (if P c then CHR '' '' # re_sub_runs P (dropWhile P cs) else c # re_sub_runs P cs)"
  by pat_completeness auto
termination
  by (relation "measure (\<lambda>(P, s). length s)")
     (auto simp: le_imp_less_Suc length_dropWhile_le)

definition separator :: "char \<Rightarrow> bool" where
  \<comment> \<open>the class \<open>[\s\W_]\<close>\<close>
  "separator c = (isspace c \<or> \<not> isword c \<or> c = CHR ''_'')"

definition normalize_sentence :: "string \<Rightarrow> string" where
  "normalize_sentence s = strip (re_sub_runs isspace (re_sub_runs separator (lower s)))"

section \<open>Python containers\<close>

text \<open>
  A \<open>Counter\<close> and a \<open>defaultdict(list)\<close> are dictionaries, which keep their keys in
  order of first insertion; the code iterates over them, so they are association lists
  in that order.
\<close>

fun counter_add :: "'a \<Rightarrow> ('a \<times> nat) list \<Rightarrow> ('a \<times> nat) list" where
  "counter_add w [] = [(w, 1)]"
| "counter_add w ((k, n) # m) = (if k = w then (k, Suc n) # m else (k, n) # counter_add w m)"

definition Counter :: "'a list \<Rightarrow> ('a \<times> nat) list" where
  "Counter xs = foldl (\<lambda>m w. counter_add w m) [] xs"

definition counter_get :: "('a \<times> nat) list \<Rightarrow> 'a \<Rightarrow> nat" where
  \<comment> \<open>\<open>counts[k]\<close>: a missing key counts 0\<close>
  "counter_get m k = (case map_of m k of None \<Rightarrow> 0 | Some n \<Rightarrow> n)"

fun positions_append :: "'a \<Rightarrow> nat \<Rightarrow> ('a \<times> nat list) list \<Rightarrow> ('a \<times> nat list) list" where
  \<comment> \<open>\<open>d[w].append(i)\<close> on a \<open>defaultdict(list)\<close>\<close>
  "positions_append w i [] = [(w, [i])]"
| "positions_append w i ((k, ps) # m) =
     (if k = w then (k, ps @ [i]) # m else (k, ps) # positions_append w i m)"

definition endswith :: "string \<Rightarrow> string \<Rightarrow> bool" where
  "endswith w suf = (length suf \<le> length w \<and> drop (length w - length suf) w = suf)"

section \<open>External libraries\<close>

text \<open>
  \<open>textstat\<close> and \<open>spellchecker\<close> are libraries outside the repository; the analyses take
  them as parameters. Each \<open>textstat\<close> function maps the text to a value or raises
  (\<open>None\<close>); the scores are floating-point numbers, kept abstract as \<open>'r\<close>.
  \<open>SpellChecker(language=lang)\<close> raises for a language without a dictionary (\<open>None\<close>),
  and otherwise gives the known-word test and the \<open>correction\<close> function.
\<close>

record 'r textstat =
  ts_flesch_reading_ease :: "string \<Rightarrow> 'r option"
  ts_flesch_kincaid_grade :: "string \<Rightarrow> 'r option"
  ts_gunning_fog :: "string \<Rightarrow> 'r option"
  ts_smog_index :: "string \<Rightarrow> 'r option"
  ts_automated_readability_index :: "string \<Rightarrow> 'r option"
  ts_coleman_liau_index :: "string \<Rightarrow> 'r option"
  ts_dale_chall_readability_score :: "string \<Rightarrow> 'r option"
  ts_difficult_words :: "string \<Rightarrow> int option"
  ts_polysyllabcount :: "string \<Rightarrow> int option"
  ts_lexicon_count :: "string \<Rightarrow> int option"
  ts_sentence_count :: "string \<Rightarrow> int option"

record speller =
  known :: "string \<Rightarrow> bool"
  correction :: "string \<Rightarrow> string option"

record 'r libraries =
  textstat :: "'r textstat"
  SpellChecker :: "string \<Rightarrow> speller option"

datatype error = ValueError

definition unknown :: "speller \<Rightarrow> string list \<Rightarrow> string set" where
  \<comment> \<open>Modelled from the spec: \<open>spell.unknown\<close> is a function of the library; the spec has
      it return the tokens not present in the known-word set.\<close>
  "unknown spell ws = Set.filter (\<lambda>w. \<not> known spell w) (set ws)"

section \<open>Configuration and report\<close>

record CheckerOptions =
  lang :: string
  long_sentence_threshold :: int
  max_duplicate_sentences :: int

record 'r readability =
  flesch_reading_ease :: "'r option"
  flesch_kincaid_grade :: "'r option"
  gunning_fog :: "'r option"
  smog_index :: "'r option"
  automated_readability_index :: "'r option"
  coleman_liau_index :: "'r option"
  dale_chall :: "'r option"
  difficult_words :: "int option"
  polysyllables :: "int option"
  lexicon_count :: int
  sentence_count :: int

record spelling_issue =
  issue_word :: string
  issue_suggestion :: "string option"

record spelling =
  total_unknown :: nat
  issues :: "spelling_issue list"

record long_sentence =
  long_index :: nat
  long_word_count :: nat
  long_text :: string

record passive_hit =
  passive_index :: nat
  passive_match :: string
  passive_sentence :: string

record adverb =
  adverb_word :: string
  adverb_count :: nat

record style =
  long_sentences :: "long_sentence list"
  passive_voice :: "passive_hit list"
  adverbs :: "adverb list"

record duplicate_word =
  dup_word :: string
  dup_occurrences :: "nat list"

record duplicate_sentence =
  dup_sentence :: string
  dup_count :: nat

record repetition =
  duplicate_words :: "duplicate_word list"
  duplicate_sentences :: "duplicate_sentence list"

record summary =
  characters :: nat
  words :: nat
  sentences :: nat

record 'r report =
  report_summary :: summary
  report_readability :: "'r readability"
  report_spelling :: spelling
  report_style :: style
  report_repetition :: repetition
  report_options :: CheckerOptions

section \<open>Readability\<close>

definition blank_readability :: "'r readability" where
  "blank_readability =
     \<lparr>flesch_reading_ease = None, flesch_kincaid_grade = None, gunning_fog = None,
      smog_index = None, automated_readability_index = None, coleman_liau_index = None,
      dale_chall = None, difficult_words = Some 0, polysyllables = Some 0,
      lexicon_count = 0, sentence_count = 0\<rparr>"

definition textstat_readability :: "'r textstat \<Rightarrow> string \<Rightarrow> 'r readability option" where
  \<comment> \<open>the body of the \<open>try\<close>: the calls in source order; the first to raise ends it\<close>
  "textstat_readability ts text =
     Option.bind (ts_flesch_reading_ease ts text) (\<lambda>v1.
     Option.bind (ts_flesch_kincaid_grade ts text) (\<lambda>v2.
     Option.bind (ts_gunning_fog ts text) (\<lambda>v3.
     Option.bind (ts_smog_index ts text) (\<lambda>v4.
     Option.bind (ts_automated_readability_index ts text) (\<lambda>v5.
     Option.bind (ts_coleman_liau_index ts text) (\<lambda>v6.
     Option.bind (ts_dale_chall_readability_score ts text) (\<lambda>v7.
     Option.bind (ts_difficult_words ts text) (\<lambda>v8.
     Option.bind (ts_polysyllabcount ts text) (\<lambda>v9.
     Option.bind (ts_lexicon_count ts text) (\<lambda>v10.
     Option.bind (ts_sentence_count ts text) (\<lambda>v11.
       Some \<lparr>flesch_reading_ease = Some v1, flesch_kincaid_grade = Some v2,
             gunning_fog = Some v3, smog_index = Some v4,
             automated_readability_index = Some v5, coleman_liau_index = Some v6,
             dale_chall = Some v7, difficult_words = Some v8, polysyllables = Some v9,
             lexicon_count = v10, sentence_count = v11\<rparr>)))))))))))"

definition analyze_readability :: "'r textstat \<Rightarrow> string \<Rightarrow> 'r readability" where
  "analyze_readability ts text =
     (if strip text = [] then blank_readability
      else (case textstat_readability ts text of
              Some r \<Rightarrow> r
            | None \<Rightarrow>
                \<lparr>flesch_reading_ease = None, flesch_kincaid_grade = None, gunning_fog = None,
                 smog_index = None, automated_readability_index = None,
                 coleman_liau_index = None, dale_chall = None, difficult_words = None,
                 polysyllables = None, lexicon_count = int (length (tokenize text)),
                 sentence_count = int (length (split_sentences text))\<rparr>))"

section \<open>Spelling\<close>

text \<open>
  \<open>re.findall(r"\b\w+\b", text)\<close>: the maximal runs of word characters.
\<close>

function word_runs :: "string \<Rightarrow> string list" where
  "word_runs [] = []"
| "word_runs (c # cs) =
     (if isword c then (c # takeWhile isword cs) # word_runs (dropWhile isword cs)
      else word_runs cs)"
  by pat_completeness auto
termination
  by (relation "measure length") (auto simp: le_imp_less_Suc length_dropWhile_le)

definition str_isalpha :: "string \<Rightarrow> bool" where
  \<comment> \<open>\<open>t.isalpha()\<close>: false on the empty string\<close>
  "str_isalpha t = (t \<noteq> [] \<and> list_all isalpha t)"

definition lower_tokens :: "string \<Rightarrow> string list" where
  "lower_tokens text =
     map lower (filter (\<lambda>t. str_isalpha t \<and> \<not> list_ex isupper t) (word_runs text))"

definition analyze_spelling :: "'r libraries \<Rightarrow> string \<Rightarrow> string \<Rightarrow> error + spelling" where
  "analyze_spelling libs text lng =
     (case SpellChecker libs lng of
        None \<Rightarrow> Inl ValueError
      | Some spell \<Rightarrow>
          (let issues = map (\<lambda>w. \<lparr>issue_word = w, issue_suggestion = correction spell w\<rparr>)
                            (sorted_list_of_set (unknown spell (lower_tokens text)))
           in Inr \<lparr>total_unknown = length issues, issues = issues\<rparr>))"

section \<open>Style\<close>

definition style_long_sentences :: "string list \<Rightarrow> int \<Rightarrow> long_sentence list" where
  "style_long_sentences sents threshold =
     [\<lparr>long_index = i, long_word_count = length (tokenize s), long_text = s\<rparr>.
        (i, s) \<leftarrow> enumerate 0 sents, int (length (tokenize s)) > threshold]"

text \<open>
  The passive-voice pattern, case-insensitive:
  \<open>\b(?:am|is|are|was|were|be|been|being)\b\s+\b(\w+ed)\b\<close>. A match is a whole run of
  word characters that is one of the verbs, a whitespace run, and a whole run of word
  characters of at least three characters that ends in \<open>ed\<close>. \<open>passive_at\<close> matches at
  the head of its argument, which starts a run of word characters, and returns the
  matched text with what follows it; \<open>passive_scan\<close> is \<open>finditer\<close>.
\<close>

definition be_verbs :: "string list" where
  "be_verbs = [''am'', ''is'', ''are'', ''was'', ''were'', ''be'', ''been'', ''being'']"

definition passive_at :: "string \<Rightarrow> (string \<times> string) option" where
  "passive_at s =
     (let verb = takeWhile isword s; r1 = dropWhile isword s;
          gap = takeWhile isspace r1; r2 = dropWhile isspace r1;
          part = takeWhile isword r2; r3 = dropWhile isword r2
      in if lower verb \<in> set be_verbs \<and> gap \<noteq> [] \<and> 3 \<le> length part \<and> endswith (lower part) ''ed''
         then Some (verb @ gap @ part, r3) else None)"

lemma passive_at_length: "passive_at s = Some (m, rest) \<Longrightarrow> length rest < length s"
proof -
  assume a: "passive_at s = Some (m, rest)"
  let ?r1 = "dropWhile isword s"
  let ?r2 = "dropWhile isspace ?r1"
  from a have gap: "takeWhile isspace ?r1 \<noteq> []" and rest: "rest = dropWhile isword ?r2"
    by (auto simp: passive_at_def Let_def split: if_splits)
  have "length ?r2 + length (takeWhile isspace ?r1) = length ?r1"
    by (metis add.commute length_append takeWhile_dropWhile_id)
  with gap have "length ?r2 < length ?r1"
    by (cases "takeWhile isspace ?r1") auto
  moreover have "length ?r1 \<le> length s" and "length rest \<le> length ?r2"
    unfolding rest by (rule length_dropWhile_le)+
  ultimately show ?thesis
    by linarith
qed

function passive_scan :: "char option \<Rightarrow> string \<Rightarrow> string list" where
  "passive_scan prev [] = []"
| "passive_scan prev (c # cs) =
     (if isword c \<and> \<not> (case prev of None \<Rightarrow> False | Some p \<Rightarrow> isword p)
      then (case passive_at (c # cs) of
              Some (m, rest) \<Rightarrow> m # passive_scan (Some (last m)) rest
            | None \<Rightarrow> passive_scan (Some c) cs)
      else passive_scan (Some c) cs)"
  by pat_completeness auto
termination
  by (relation "measure (\<lambda>(prev, s). length s)") (auto dest: passive_at_length)

definition style_passive_hits :: "string list \<Rightarrow> passive_hit list" where
  "style_passive_hits sents =
     concat (map (\<lambda>(i, s). map (\<lambda>m. \<lparr>passive_index = i, passive_match = m, passive_sentence = s\<rparr>)
                               (passive_scan None s))
                 (enumerate 0 sents))"

definition skip :: "string set" where
  "skip = {''family'', ''only'', ''supply'', ''reply'', ''apply'', ''imply''}"

definition adverb_key :: "adverb \<Rightarrow> int \<times> string" where
  \<comment> \<open>the sort key \<open>(-x["count"], x["word"])\<close>\<close>
  "adverb_key x = (- int (adverb_count x), adverb_word x)"

definition style_adverbs :: "string \<Rightarrow> adverb list" where
  "style_adverbs text =
     (let ws = map lower (tokenize text);
          adverb_counts = Counter (filter (\<lambda>w. length w > 3 \<and> endswith w ''ly'') ws);
          found = map (\<lambda>(w, c). \<lparr>adverb_word = w, adverb_count = c\<rparr>)
                      (filter (\<lambda>(w, c). w \<notin> skip) adverb_counts)
      in sort_key adverb_key found)"

definition analyze_style :: "string \<Rightarrow> int \<Rightarrow> style" where
  "analyze_style text threshold =
     (let sents = split_sentences text
      in \<lparr>long_sentences = style_long_sentences sents threshold,
          passive_voice = style_passive_hits sents,
          adverbs = style_adverbs text\<rparr>)"

section \<open>Repetition\<close>

fun scan_duplicates ::
  "string option \<Rightarrow> nat \<Rightarrow> string list \<Rightarrow> (string \<times> nat list) list \<Rightarrow> (string \<times> nat list) list" where
  \<comment> \<open>the loop over \<open>enumerate(words)\<close>; \<open>prev\<close> starts as \<open>None\<close>\<close>
  "scan_duplicates prev i [] d = d"
| "scan_duplicates prev i (w # ws) d =
     scan_duplicates (Some w) (Suc i) ws (if prev = Some w then positions_append w i d else d)"

definition positions_key :: "string \<times> nat list \<Rightarrow> int \<times> string" where
  \<comment> \<open>the sort key \<open>(-len(kv[1]), kv[0])\<close>\<close>
  "positions_key kv = (- int (length (snd kv)), fst kv)"

definition repetition_dup_words :: "string \<Rightarrow> duplicate_word list" where
  "repetition_dup_words text =
     (let ws = map lower (tokenize text);
          duplicate_words_positions = scan_duplicates None 0 ws []
      in map (\<lambda>(w, pos). \<lparr>dup_word = w, dup_occurrences = pos\<rparr>)
             (filter (\<lambda>(w, pos). pos \<noteq> []) (sort_key positions_key duplicate_words_positions)))"

fun dedup_sentences :: "string set \<Rightarrow> duplicate_sentence list \<Rightarrow> duplicate_sentence list" where
  \<comment> \<open>the loop that keeps the first item of each normalized sentence\<close>
  "dedup_sentences seen [] = []"
| "dedup_sentences seen (item # items) =
     (let key = normalize_sentence (dup_sentence item)
      in if key \<notin> seen then item # dedup_sentences (insert key seen) items
         else dedup_sentences seen items)"

definition repetition_dup_sentences :: "string \<Rightarrow> int \<Rightarrow> duplicate_sentence list" where
  "repetition_dup_sentences text max_dup =
     (let sents = split_sentences text;
          normalized = map normalize_sentence sents;
          counts = Counter (filter (\<lambda>n. n \<noteq> []) normalized);
          dups = [\<lparr>dup_sentence = sents ! i, dup_count = counter_get counts (normalized ! i)\<rparr>.
                    i \<leftarrow> [0..<length sents],
                    normalized ! i \<noteq> [] \<and> int (counter_get counts (normalized ! i)) > max_dup]
      in dedup_sentences {} dups)"

definition analyze_repetition :: "string \<Rightarrow> int \<Rightarrow> repetition" where
  "analyze_repetition text max_dup =
     \<lparr>duplicate_words = repetition_dup_words text,
      duplicate_sentences = repetition_dup_sentences text max_dup\<rparr>"

section \<open>Aggregator\<close>

definition analyze_text :: "'r libraries \<Rightarrow> string \<Rightarrow> CheckerOptions \<Rightarrow> error + 'r report" where
  "analyze_text libs text opts =
     (let rd = analyze_readability (textstat libs) text
      in case analyze_spelling libs text (lang opts) of
           Inl e \<Rightarrow> Inl e
         | Inr sp \<Rightarrow>
             (let st = analyze_style text (long_sentence_threshold opts);
                  rp = analyze_repetition text (max_duplicate_sentences opts);
                  sm = \<lparr>characters = length text, words = length (tokenize text),
                        sentences = length (split_sentences text)\<rparr>
              in Inr \<lparr>report_summary = sm, report_readability = rd, report_spelling = sp,
                      report_style = st, report_repetition = rp, report_options = opts\<rparr>))"

section \<open>Notions used in the statements\<close>

text \<open>
  \<open>spaced P s\<close>: every character of the class \<open>P\<close> in \<open>s\<close> is a space and is not
  followed by another character of the class.
\<close>

fun spaced :: "(char \<Rightarrow> bool) \<Rightarrow> string \<Rightarrow> bool" where
  "spaced P [] = True"
| "spaced P (c # cs) = ((P c \<longrightarrow> c = CHR '' '' \<and> (cs = [] \<or> \<not> P (hd cs))) \<and> spaced P cs)"

definition normalize_sentence_spec :: "string \<Rightarrow> string" where
  \<comment> \<open>\<open>normalize_sentence\<close> in the words of the specification: lowercase, every run of
      whitespace or non-word characters becomes one space, trim\<close>
  "normalize_sentence_spec s = strip (re_sub_runs (\<lambda>c. isspace c \<or> \<not> isword c) (lower s))"

definition adjacent_positions :: "string list \<Rightarrow> string \<Rightarrow> nat list" where
  \<comment> \<open>the zero-based positions at which \<open>w\<close> stands right after another \<open>w\<close>\<close>
  "adjacent_positions ws w = filter (\<lambda>i. 0 < i \<and> ws ! i = w \<and> ws ! (i - 1) = w) [0..<length ws]"

definition normalized :: "string \<Rightarrow> string list" where
  \<comment> \<open>the normalized forms of the sentences of a text, in order\<close>
  "normalized text = map normalize_sentence (split_sentences text)"

definition sentence_key :: "duplicate_sentence \<Rightarrow> string" where
  \<comment> \<open>the key by which the findings are deduplicated\<close>
  "sentence_key item = normalize_sentence (dup_sentence item)"

definition plain_char :: "char \<Rightarrow> bool" where
  \<comment> \<open>a lowercase ASCII letter, or a non-word character other than hyphen and apostrophe\<close>
  "plain_char c = (between 97 122 (ord c) \<or> (\<not> isword c \<and> \<not> joiner c))"

definition candidate_tokens_spec :: "string \<Rightarrow> string list" where
  \<comment> \<open>the candidate tokens in the words of the specification: tokenize, keep the purely
      alphabetic tokens, drop those with an uppercase letter in the original form,
      lowercase\<close>
  "candidate_tokens_spec text =
     map lower (filter (\<lambda>t. str_isalpha t \<and> \<not> list_ex isupper t) (tokenize text))"

section \<open>Sample libraries\<close>

text \<open>
  A small instance of the external libraries, for evaluating the analyses on concrete
  texts: a \<open>textstat\<close> whose every function raises, and a spell checker that has an
  English dictionary of a few words only and never suggests a correction.
\<close>

definition sample_textstat :: "int textstat" where
  "sample_textstat =
     \<lparr>ts_flesch_reading_ease = (\<lambda>t. None), ts_flesch_kincaid_grade = (\<lambda>t. None),
      ts_gunning_fog = (\<lambda>t. None), ts_smog_index = (\<lambda>t. None),
      ts_automated_readability_index = (\<lambda>t. None), ts_coleman_liau_index = (\<lambda>t. None),
      ts_dale_chall_readability_score = (\<lambda>t. None), ts_difficult_words = (\<lambda>t. None),
      ts_polysyllabcount = (\<lambda>t. None), ts_lexicon_count = (\<lambda>t. None),
      ts_sentence_count = (\<lambda>t. None)\<rparr>"

definition sample_speller :: speller where
  "sample_speller =
     \<lparr>known = (\<lambda>w. w \<in> set [''the'', ''cat'', ''sat'', ''stop'', ''go'']),
      correction = (\<lambda>w. None)\<rparr>"

definition sample_libraries :: "int libraries" where
  "sample_libraries =
     \<lparr>textstat = sample_textstat,
      SpellChecker = (\<lambda>l. if l = ''en'' then Some sample_speller else None)\<rparr>"

definition default_options :: CheckerOptions where
  \<comment> \<open>the defaults of the dataclass\<close>
  "default_options = \<lparr>lang = ''en'', long_sentence_threshold = 30, max_duplicate_sentences = 1\<rparr>"

text \<open>
  A \<open>textstat\<close> that succeeds, with counts of its own, and a text with a finding of
  every kind.
\<close>

definition sample_textstat_counts :: "int textstat" where
  "sample_textstat_counts =
     \<lparr>ts_flesch_reading_ease = (\<lambda>t. Some 0), ts_flesch_kincaid_grade = (\<lambda>t. Some 0),
      ts_gunning_fog = (\<lambda>t. Some 0), ts_smog_index = (\<lambda>t. Some 0),
      ts_automated_readability_index = (\<lambda>t. Some 0), ts_coleman_liau_index = (\<lambda>t. Some 0),
      ts_dale_chall_readability_score = (\<lambda>t. Some 0), ts_difficult_words = (\<lambda>t. Some 0),
      ts_polysyllabcount = (\<lambda>t. Some 0), ts_lexicon_count = (\<lambda>t. Some 99),
      ts_sentence_count = (\<lambda>t. Some 7)\<rparr>"

definition sample_text :: string where
  "sample_text = ''it was used really really. it was used really really.''"

definition sample_options :: CheckerOptions where
  "sample_options = \<lparr>lang = ''en'', long_sentence_threshold = 3, max_duplicate_sentences = 1\<rparr>"

section \<open>The summary of the report\<close>

lemma analyze_spelling_cases:
  "analyze_spelling libs text lng = Inl e \<Longrightarrow> SpellChecker libs lng = None"
  "analyze_spelling libs text lng = Inr sp \<Longrightarrow> SpellChecker libs lng \<noteq> None"
  by (auto simp: analyze_spelling_def Let_def split: option.splits)

lemma analyze_text_cases:
  "analyze_text libs text opts = Inl e \<Longrightarrow> SpellChecker libs (lang opts) = None"
  "analyze_text libs text opts = Inr r \<Longrightarrow>
     report_summary r = \<lparr>characters = length text, words = length (tokenize text),
                          sentences = length (split_sentences text)\<rparr>"
  by (auto simp: analyze_text_def Let_def split: sum.splits dest: analyze_spelling_cases)

text \<open>
  C2. For every text and configuration, \<open>analyze_text\<close> either raises because the spell
  checker has no dictionary for the language, or returns a report whose summary has
  \<open>words = len(tokenize(text))\<close> and \<open>sentences = len(split_sentences(text))\<close>, whatever
  the readability library reports.
\<close>

theorem summary_words_sentences:
  "case analyze_text libs text opts of
     Inl e \<Rightarrow> SpellChecker libs (lang opts) = None
   | Inr r \<Rightarrow> words (report_summary r) = length (tokenize text)
             \<and> sentences (report_summary r) = length (split_sentences text)"
  by (auto split: sum.splits dest: analyze_text_cases)

lemma sample_spelling_returns:
  "\<exists>sp. analyze_spelling sample_libraries text ''en'' = Inr sp"
  by (simp add: analyze_spelling_def sample_libraries_def Let_def)

lemma sample_text_returns:
  "\<exists>r. analyze_text sample_libraries text default_options = Inr r"
  using sample_spelling_returns [of "text"]
  by (auto simp: analyze_text_def Let_def default_options_def)

theorem summary_words_sentences_witness:
  "\<exists>r. analyze_text sample_libraries ''Stop. Stop. Go.'' default_options = Inr r
       \<and> words (report_summary r) = 3 \<and> sentences (report_summary r) = 3"
proof -
  have t: "length (tokenize ''Stop. Stop. Go.'') = 3"
    by code_simp
  have s: "length (split_sentences ''Stop. Stop. Go.'') = 3"
    by code_simp
  obtain r where r: "analyze_text sample_libraries ''Stop. Stop. Go.'' default_options = Inr r"
    using sample_text_returns by blast
  with summary_words_sentences [of sample_libraries default_options "''Stop. Stop. Go.''"] t s
  show ?thesis
    by simp
qed

text \<open>
  C10. For every text and configuration, the summary of a returned report has
  \<open>characters = len(text)\<close>, the length of the raw input: nothing is trimmed and every
  character counts, also when the text has no token and no sentence.
\<close>

theorem summary_characters:
  "case analyze_text libs text opts of
     Inl e \<Rightarrow> SpellChecker libs (lang opts) = None
   | Inr r \<Rightarrow> characters (report_summary r) = length text"
  by (auto split: sum.splits dest: analyze_text_cases)

theorem summary_characters_witness:
  "\<exists>r. analyze_text sample_libraries [CHR '' '', CHR 0x0A, CHR '' ''] default_options = Inr r
       \<and> characters (report_summary r) = 3 \<and> words (report_summary r) = 0
       \<and> sentences (report_summary r) = 0"
proof -
  let ?text = "[CHR '' '', CHR 0x0A, CHR '' '']"
  have t: "length (tokenize ?text) = 0"
    by code_simp
  have s: "length (split_sentences ?text) = 0"
    by code_simp
  obtain r where r: "analyze_text sample_libraries ?text default_options = Inr r"
    using sample_text_returns by blast
  with summary_characters [of sample_libraries default_options ?text] t s
    analyze_text_cases(2) [OF r]
  show ?thesis
    by simp
qed

section \<open>Blank text\<close>

lemma space_not_letter: "isspace c \<Longrightarrow> \<not> ascii_letter c"
  unfolding isspace_def ascii_letter_def between_def by linarith

lemma strip_blank: "list_all isspace text \<Longrightarrow> strip text = []"
proof -
  assume "list_all isspace text"
  then have d: "dropWhile isspace text = []"
    by (simp add: list_all_iff)
  show ?thesis
    unfolding strip_def d by simp
qed

lemma tokenize_no_letters: "\<forall>c\<in>set text. \<not> ascii_letter c \<Longrightarrow> tokenize text = []"
  by (induction "text") simp_all

text \<open>
  C3, as stated, fails in its last part: on blank text \<open>analyze_readability\<close> returns
  the counts \<open>difficult_words\<close> and \<open>polysyllables\<close> as 0, not as absent.
\<close>

theorem blank_counts_counterexample:
  "list_all isspace '' ''
   \<and> difficult_words (analyze_readability sample_textstat '' '') = Some 0
   \<and> polysyllables (analyze_readability sample_textstat '' '') = Some 0
   \<and> difficult_words (analyze_readability sample_textstat '' '') \<noteq> None
   \<and> polysyllables (analyze_readability sample_textstat '' '') \<noteq> None"
proof -
  have b: "list_all isspace '' ''"
    by code_simp
  have s: "strip '' '' = []"
    by code_simp
  have r: "analyze_readability sample_textstat '' '' = blank_readability"
    by (simp add: analyze_readability_def s)
  show ?thesis
    unfolding r using b by (simp add: blank_readability_def)
qed

text \<open>
  C3, amended. For a text that is empty or has only whitespace characters,
  \<open>split_sentences\<close> and \<open>tokenize\<close> return the empty list and \<open>analyze_readability\<close>
  returns the seven scores absent and the four counts (\<open>difficult_words\<close>,
  \<open>polysyllables\<close>, \<open>lexicon_count\<close>, \<open>sentence_count\<close>) as 0, whatever the readability
  library does; the functions are total, so no error is raised.
\<close>

theorem blank_text_is_empty:
  assumes "list_all isspace text"
  shows "split_sentences text = [] \<and> tokenize text = []
    \<and> flesch_reading_ease (analyze_readability ts text) = None
    \<and> flesch_kincaid_grade (analyze_readability ts text) = None
    \<and> gunning_fog (analyze_readability ts text) = None
    \<and> smog_index (analyze_readability ts text) = None
    \<and> automated_readability_index (analyze_readability ts text) = None
    \<and> coleman_liau_index (analyze_readability ts text) = None
    \<and> dale_chall (analyze_readability ts text) = None
    \<and> difficult_words (analyze_readability ts text) = Some 0
    \<and> polysyllables (analyze_readability ts text) = Some 0
    \<and> lexicon_count (analyze_readability ts text) = 0
    \<and> sentence_count (analyze_readability ts text) = 0"
proof -
  have s: "strip text = []"
    using assms by (rule strip_blank)
  have "tokenize text = []"
    using assms by (intro tokenize_no_letters) (auto simp: list_all_iff dest: space_not_letter)
  moreover have "split_sentences text = []"
    by (simp add: split_sentences_def s)
  moreover have "analyze_readability ts text = blank_readability"
    by (simp add: analyze_readability_def s)
  ultimately show ?thesis
    by (simp add: blank_readability_def)
qed

theorem blank_text_is_empty_witness:
  "list_all isspace [CHR '' '', CHR 0x09, CHR 0x0A]
   \<and> split_sentences [CHR '' '', CHR 0x09, CHR 0x0A] = []
   \<and> tokenize [CHR '' '', CHR 0x09, CHR 0x0A] = []
   \<and> flesch_reading_ease (analyze_readability sample_textstat [CHR '' '', CHR 0x09, CHR 0x0A]) = None
   \<and> dale_chall (analyze_readability sample_textstat [CHR '' '', CHR 0x09, CHR 0x0A]) = None"
proof -
  have h: "list_all isspace [CHR '' '', CHR 0x09, CHR 0x0A]"
    by code_simp
  from blank_text_is_empty [OF h, of sample_textstat] h show ?thesis
    by simp
qed

section \<open>Sentence normalization\<close>


lemma re_sub_runs_spaced: "spaced P xs \<Longrightarrow> re_sub_runs P xs = xs"
proof (induction xs)
  case (Cons c cs)
  then show ?case by (cases cs) auto
qed simp

lemma re_sub_runs_hd: "xs \<noteq> [] \<Longrightarrow> \<not> P (hd xs) \<Longrightarrow> re_sub_runs P xs \<noteq> [] \<and> hd (re_sub_runs P xs) = hd xs"
  by (cases xs) auto

lemma spaced_re_sub_runs: "spaced P (re_sub_runs P xs)"
proof (induction P xs rule: re_sub_runs.induct)
  case (2 P c cs)
  show ?case
  proof (cases "P c")
    case True
    have "re_sub_runs P (dropWhile P cs) = [] \<or> \<not> P (hd (re_sub_runs P (dropWhile P cs)))"
    proof (cases "dropWhile P cs")
      case Nil
      show ?thesis unfolding Nil by simp
    next
      case (Cons d r)
      then have "\<not> P d"
        by (metis hd_dropWhile list.distinct(1) list.sel(1))
      with Cons show ?thesis by simp
    qed
    with True 2 show ?thesis by simp
  next
    case False
    with 2 show ?thesis by simp
  qed
qed simp

lemma spaced_mono: "(\<And>c. Q c \<Longrightarrow> P c) \<Longrightarrow> spaced P xs \<Longrightarrow> spaced Q xs"
  by (induction xs) auto

lemma space_separator: "isspace c \<Longrightarrow> separator c"
  by (simp add: separator_def)

lemma normalize_sentence_second_pass:
  "normalize_sentence s = strip (re_sub_runs separator (lower s))"
proof -
  have "spaced isspace (re_sub_runs separator (lower s))"
    by (rule spaced_mono [OF space_separator spaced_re_sub_runs])
  then show ?thesis
    by (simp add: normalize_sentence_def re_sub_runs_spaced)
qed


lemma ord_char_of: "n < 256 \<Longrightarrow> ord (char_of n) = n"
  by (simp add: ord_def)

lemma lower_char_not_upper: "\<not> isupper (lower_char c)"
proof (cases "isupper c")
  case True
  then have "ord c + 32 < 256"
    unfolding isupper_def between_def by linarith
  then have "ord (char_of (ord c + 32)) = ord c + 32"
    by (rule ord_char_of)
  moreover have "\<not> (between 65 90 (ord c + 32) \<or> between 192 214 (ord c + 32) \<or> between 216 222 (ord c + 32))"
    using True unfolding isupper_def between_def by linarith
  ultimately show ?thesis
    using True by (simp add: lower_char_def isupper_def)
next
  case False
  then show ?thesis by (simp add: lower_char_def)
qed

lemma lower_char_idem: "lower_char (lower_char c) = lower_char c"
  using lower_char_not_upper [of c] by (simp add: lower_char_def [of "lower_char c"])

lemma lower_char_space: "lower_char (CHR '' '') = CHR '' ''"
  by (simp add: lower_char_def isupper_def between_def ord_def)

lemma set_re_sub_runs: "set (re_sub_runs P xs) \<subseteq> insert (CHR '' '') (set xs)"
proof (induction P xs rule: re_sub_runs.induct)
  case (2 P c cs)
  have "set (dropWhile P cs) \<subseteq> set cs"
    by (auto dest: set_dropWhileD)
  with 2 show ?case by auto
qed simp

lemma spaced_append: "spaced P (xs @ ys) \<Longrightarrow> spaced P xs \<and> spaced P ys"
proof (induction xs)
  case (Cons c cs)
  then show ?case by (cases cs) auto
qed simp

lemma rev_dropWhile_rev:
  "rev (dropWhile P (rev xs)) @ rev (takeWhile P (rev xs)) = xs"
proof -
  have "rev (dropWhile P (rev xs)) @ rev (takeWhile P (rev xs))
      = rev (takeWhile P (rev xs) @ dropWhile P (rev xs))"
    by (simp only: rev_append)
  also have "\<dots> = rev (rev xs)"
    by (simp only: takeWhile_dropWhile_id)
  finally show ?thesis by simp
qed

lemma strip_suffix:
  "dropWhile isspace s = strip s @ rev (takeWhile isspace (rev (dropWhile isspace s)))"
  unfolding strip_def by (rule rev_dropWhile_rev [symmetric])

lemma strip_decompose: "\<exists>u w. s = u @ strip s @ w"
proof -
  have "s = takeWhile isspace s @ dropWhile isspace s"
    by simp
  then show ?thesis
    using strip_suffix [of s] by metis
qed

lemma strip_no_leading: "strip s = [] \<or> \<not> isspace (hd (strip s))"
proof (cases "strip s")
  case Nil
  then show ?thesis by simp
next
  case (Cons c cs)
  let ?a = "dropWhile isspace s"
  from Cons strip_suffix [of s] have "hd ?a = c" and "?a \<noteq> []"
    by (metis append_Cons list.sel(1), metis append_Cons list.distinct(1))
  then have "\<not> isspace c"
    by (metis hd_dropWhile)
  with Cons show ?thesis by simp
qed

lemma strip_no_trailing: "strip s = [] \<or> \<not> isspace (last (strip s))"
proof -
  let ?b = "dropWhile isspace (rev (dropWhile isspace s))"
  have "?b = [] \<or> \<not> isspace (hd ?b)"
    by (metis hd_dropWhile)
  then show ?thesis
    by (auto simp: strip_def last_rev simp del: dropWhile_eq_Nil_conv)
qed

lemma strip_id: "(s = [] \<or> \<not> isspace (hd s)) \<Longrightarrow> (s = [] \<or> \<not> isspace (last s)) \<Longrightarrow> strip s = s"
proof (cases s)
  case Nil
  then show ?thesis by (simp add: strip_def)
next
  case (Cons c cs)
  assume "s = [] \<or> \<not> isspace (hd s)" and l: "s = [] \<or> \<not> isspace (last s)"
  with Cons have d: "dropWhile isspace s = s"
    by simp
  from l Cons have "rev s \<noteq> []" and "\<not> isspace (hd (rev s))"
    by (simp, metis hd_rev list.distinct(1))
  then have "dropWhile isspace (rev s) = rev s"
    by (cases "rev s") simp_all
  then show ?thesis
    unfolding strip_def d by simp
qed

lemma strip_idem: "strip (strip s) = strip s"
  by (rule strip_id [OF strip_no_leading strip_no_trailing])

text \<open>
  C4, as the specification words it, fails: the code also replaces underscores, which
  are word characters.
\<close>

theorem normalize_sentence_underscore_counterexample:
  "normalize_sentence ''a_b'' = ''a b'' \<and> normalize_sentence_spec ''a_b'' = ''a_b''
   \<and> normalize_sentence ''a_b'' \<noteq> normalize_sentence_spec ''a_b''"
  by code_simp

text \<open>
  C4, amended. For every string \<open>s\<close>, \<open>normalize_sentence s\<close> is the result of
  lowercasing \<open>s\<close>, replacing every maximal run of whitespace, non-word characters or
  underscores by a single space, and trimming leading and trailing whitespace.
\<close>

theorem normalize_sentence_one_pass:
  "normalize_sentence s = strip (re_sub_runs separator (lower s))"
  by (rule normalize_sentence_second_pass)

theorem normalize_sentence_one_pass_witness:
  "normalize_sentence ''  Hello,  World_x!! '' = ''hello world x''
   \<and> strip (re_sub_runs separator (lower ''  Hello,  World_x!! '')) = ''hello world x''"
proof -
  have e: "normalize_sentence ''  Hello,  World_x!! '' = ''hello world x''"
    by code_simp
  from normalize_sentence_one_pass [of "''  Hello,  World_x!! ''"] e show ?thesis
    by simp
qed

text \<open>
  C5. \<open>normalize_sentence\<close> is idempotent.
\<close>

theorem normalize_sentence_idempotent:
  "normalize_sentence (normalize_sentence s) = normalize_sentence s"
proof -
  let ?z = "re_sub_runs separator (lower s)"
  let ?y = "strip ?z"
  have y: "normalize_sentence s = ?y"
    by (rule normalize_sentence_second_pass)
  obtain u w where z: "?z = u @ ?y @ w"
    using strip_decompose by blast
  have "spaced separator ?z"
    by (rule spaced_re_sub_runs)
  then have "spaced separator (u @ ?y @ w)"
    using z by simp
  then have sp: "spaced separator ?y"
    by (blast dest: spaced_append)
  have "set ?y \<subseteq> set ?z"
    using z by (metis Un_upper1 Un_upper2 set_append subset_trans)
  also have "\<dots> \<subseteq> insert (CHR '' '') (set (lower s))"
    by (rule set_re_sub_runs)
  finally have "\<forall>c\<in>set ?y. lower_char c = c"
    by (auto simp: lower_def lower_char_idem lower_char_space)
  then have lw: "lower ?y = ?y"
    by (simp add: lower_def map_idI)
  have "normalize_sentence ?y = strip (re_sub_runs separator (lower ?y))"
    by (rule normalize_sentence_second_pass)
  also have "\<dots> = strip ?y"
    by (simp only: lw re_sub_runs_spaced [OF sp])
  also have "\<dots> = ?y"
    by (rule strip_idem)
  finally show ?thesis
    by (simp only: y)
qed

theorem normalize_sentence_idempotent_witness:
  "normalize_sentence ''  Hello,  World_x!! '' = ''hello world x''
   \<and> normalize_sentence ''hello world x'' = ''hello world x''"
proof -
  have e: "normalize_sentence ''  Hello,  World_x!! '' = ''hello world x''"
    by code_simp
  from normalize_sentence_idempotent [of "''  Hello,  World_x!! ''"] e show ?thesis
    by simp
qed

section \<open>Duplicate words\<close>


lemma scan_duplicates_snoc:
  "scan_duplicates prev i (ws @ [x]) d =
     (if (if ws = [] then prev else Some (last ws)) = Some x
      then positions_append x (i + length ws) (scan_duplicates prev i ws d)
      else scan_duplicates prev i ws d)"
  by (induction ws arbitrary: prev i d) auto

lemma positions_append_keys:
  "fst ` set (positions_append w i d) = insert w (fst ` set d)"
proof (induction d)
  case (Cons a d)
  obtain k ps where a: "a = (k, ps)"
    by (cases a)
  show ?case
  proof (cases "k = w")
    case True
    then show ?thesis by (simp add: a)
  next
    case False
    then show ?thesis using Cons by (simp add: a insert_commute)
  qed
qed simp

lemma positions_append_distinct:
  "distinct (map fst d) \<Longrightarrow> distinct (map fst (positions_append w i d))"
proof (induction d)
  case (Cons a d)
  then show ?case
    using positions_append_keys [of w i d] by (cases a) auto
qed simp

lemma positions_append_map_of:
  "map_of (positions_append w i d) =
     (map_of d)(w \<mapsto> (case map_of d w of None \<Rightarrow> [] | Some ps \<Rightarrow> ps) @ [i])"
  by (induction d) (auto simp: fun_eq_iff)

lemma adjacent_positions_snoc:
  "adjacent_positions (ws @ [x]) w =
     adjacent_positions ws w @ (if ws \<noteq> [] \<and> last ws = x \<and> x = w then [length ws] else [])"
proof -
  have "filter (\<lambda>i. 0 < i \<and> (ws @ [x]) ! i = w \<and> (ws @ [x]) ! (i - 1) = w) [0..<length ws]
      = filter (\<lambda>i. 0 < i \<and> ws ! i = w \<and> ws ! (i - 1) = w) [0..<length ws]"
    by (rule filter_cong) (auto simp: nth_append)
  moreover have "(0 < length ws \<and> (ws @ [x]) ! (length ws - 1) = w) = (ws \<noteq> [] \<and> last ws = w)"
    by (cases ws rule: rev_cases) (auto simp: nth_append)
  ultimately show ?thesis
    by (auto simp: adjacent_positions_def)
qed

lemma scan_duplicates_invariant:
  "distinct (map fst (scan_duplicates None 0 ws [])) \<and>
   (\<forall>w. map_of (scan_duplicates None 0 ws []) w =
          (if adjacent_positions ws w = [] then None else Some (adjacent_positions ws w)))"
proof (induction ws rule: rev_induct)
  case Nil
  show ?case by (simp add: adjacent_positions_def)
next
  case (snoc x ws)
  let ?d = "scan_duplicates None 0 ws []"
  show ?case
  proof (cases "ws \<noteq> [] \<and> last ws = x")
    case True
    then have s: "scan_duplicates None 0 (ws @ [x]) [] = positions_append x (length ws) ?d"
      by (simp add: scan_duplicates_snoc)
    show ?thesis
      unfolding s using snoc True
      by (auto simp: positions_append_distinct positions_append_map_of adjacent_positions_snoc)
  next
    case False
    then have s: "scan_duplicates None 0 (ws @ [x]) [] = ?d"
      by (auto simp: scan_duplicates_snoc)
    show ?thesis
      unfolding s using snoc False
      by (auto simp: adjacent_positions_snoc)
  qed
qed


lemma dup_words_entries:
  "(w, ps) \<in> set (filter (\<lambda>(w, pos). pos \<noteq> []) (sort_key positions_key (scan_duplicates None 0 ws [])))
   \<longleftrightarrow> ps = adjacent_positions ws w \<and> ps \<noteq> []"
proof -
  let ?d = "scan_duplicates None 0 ws []"
  have "distinct (map fst ?d)"
    using scan_duplicates_invariant [of ws] by (rule conjunct1)
  then have "(w, ps) \<in> set ?d \<longleftrightarrow> map_of ?d w = Some ps"
    by (rule map_of_eq_Some_iff [symmetric])
  also have "\<dots> \<longleftrightarrow> ps = adjacent_positions ws w \<and> ps \<noteq> []"
    using scan_duplicates_invariant [of ws] by auto
  finally show ?thesis
    by auto
qed

lemma dup_words_distinct:
  "distinct (map fst (filter (\<lambda>(w, pos). pos \<noteq> []) (sort_key positions_key (scan_duplicates None 0 ws []))))"
proof -
  let ?d = "scan_duplicates None 0 ws []"
  have "distinct (map fst ?d)"
    using scan_duplicates_invariant [of ws] by simp
  then have "distinct (map fst (sort_key positions_key ?d))"
    by (simp add: distinct_map)
  then show ?thesis
    by (rule distinct_map_filter)
qed

lemma dup_words_sorted:
  "sorted (map positions_key (filter P (sort_key positions_key d)))"
  by (rule sorted_filter) (rule sorted_sort_key)

text \<open>
  C6. The duplicate-word findings are exactly the case-folded tokens that stand right
  after an equal token, one finding per word, each with the zero-based positions of
  the later occurrences, sorted by descending number of positions, then by ascending
  word; \<open>"the the cat sat sat."\<close> yields \<open>the\<close> with \<open>[1]\<close> and \<open>sat\<close> with \<open>[4]\<close>.
\<close>

theorem duplicate_words_adjacent:
  "distinct (map dup_word (duplicate_words (analyze_repetition text max_dup)))
   \<and> (\<forall>w. w \<in> dup_word ` set (duplicate_words (analyze_repetition text max_dup))
          \<longleftrightarrow> adjacent_positions (map lower (tokenize text)) w \<noteq> [])
   \<and> (\<forall>e\<in>set (duplicate_words (analyze_repetition text max_dup)).
          dup_occurrences e = adjacent_positions (map lower (tokenize text)) (dup_word e))
   \<and> sorted (map (\<lambda>e. (- int (length (dup_occurrences e)), dup_word e)) (duplicate_words (analyze_repetition text max_dup)))
   \<and> duplicate_words (analyze_repetition ''the the cat sat sat.'' 1) =
        [\<lparr>dup_word = ''sat'', dup_occurrences = [4]\<rparr>, \<lparr>dup_word = ''the'', dup_occurrences = [1]\<rparr>]"
proof -
  let ?ws = "map lower (tokenize text)"
  let ?l = "filter (\<lambda>(w, pos). pos \<noteq> []) (sort_key positions_key (scan_duplicates None 0 ?ws []))"
  let ?mk = "\<lambda>(w, pos). \<lparr>dup_word = w, dup_occurrences = pos\<rparr>"
  have r: "duplicate_words (analyze_repetition text max_dup) = map ?mk ?l"
    by (simp add: analyze_repetition_def repetition_dup_words_def Let_def)
  have w: "map dup_word (map ?mk ?l) = map fst ?l"
    by (simp add: case_prod_unfold)
  have k: "map (\<lambda>e. (- int (length (dup_occurrences e)), dup_word e)) (map ?mk ?l) = map positions_key ?l"
    by (simp add: case_prod_unfold positions_key_def)
  have mem: "e \<in> set (map ?mk ?l) \<longleftrightarrow>
        dup_occurrences e = adjacent_positions ?ws (dup_word e) \<and> dup_occurrences e \<noteq> []" for e
  proof -
    have "e \<in> set (map ?mk ?l) \<longleftrightarrow> (dup_word e, dup_occurrences e) \<in> set ?l"
      by (cases e) (auto simp: image_iff)
    then show ?thesis
      by (simp only: dup_words_entries)
  qed
  have c1: "distinct (map dup_word (duplicate_words (analyze_repetition text max_dup)))"
    unfolding r w by (rule dup_words_distinct)
  have c2: "\<forall>w. w \<in> dup_word ` set (duplicate_words (analyze_repetition text max_dup)) \<longleftrightarrow> adjacent_positions ?ws w \<noteq> []"
  proof
    fix w
    show "w \<in> dup_word ` set (duplicate_words (analyze_repetition text max_dup)) \<longleftrightarrow> adjacent_positions ?ws w \<noteq> []"
    proof
      assume "w \<in> dup_word ` set (duplicate_words (analyze_repetition text max_dup))"
      then obtain e where "e \<in> set (map ?mk ?l)" and "dup_word e = w"
        unfolding r by auto
      then show "adjacent_positions ?ws w \<noteq> []"
        using mem [of e] by auto
    next
      assume a: "adjacent_positions ?ws w \<noteq> []"
      let ?e = "\<lparr>dup_word = w, dup_occurrences = adjacent_positions ?ws w\<rparr>"
      have "?e \<in> set (map ?mk ?l)"
        using a by (simp only: mem) simp
      then have "dup_word ?e \<in> dup_word ` set (duplicate_words (analyze_repetition text max_dup))"
        unfolding r by (rule imageI)
      then show "w \<in> dup_word ` set (duplicate_words (analyze_repetition text max_dup))"
        by simp
    qed
  qed
  have c3: "\<forall>e\<in>set (duplicate_words (analyze_repetition text max_dup)). dup_occurrences e = adjacent_positions ?ws (dup_word e)"
    unfolding r using mem by blast
  have c4: "sorted (map (\<lambda>e. (- int (length (dup_occurrences e)), dup_word e)) (duplicate_words (analyze_repetition text max_dup)))"
    unfolding r k by (rule dup_words_sorted)
  have c5: "duplicate_words (analyze_repetition ''the the cat sat sat.'' 1) =
        [\<lparr>dup_word = ''sat'', dup_occurrences = [4]\<rparr>, \<lparr>dup_word = ''the'', dup_occurrences = [1]\<rparr>]"
    by code_simp
  from c1 c2 c3 c4 c5 show ?thesis
    by (intro conjI)
qed

theorem duplicate_words_adjacent_witness:
  "duplicate_words (analyze_repetition ''A a b'' 1) = [\<lparr>dup_word = ''a'', dup_occurrences = [1]\<rparr>]
   \<and> adjacent_positions (map lower (tokenize ''A a b'')) ''a'' = [1]
   \<and> adjacent_positions (map lower (tokenize ''A a b'')) ''b'' = []"
proof -
  have e: "duplicate_words (analyze_repetition ''A a b'' 1) = [\<lparr>dup_word = ''a'', dup_occurrences = [1]\<rparr>]"
    by code_simp
  note t = duplicate_words_adjacent [of "''A a b''" 1]
  from t have "\<forall>e\<in>set (duplicate_words (analyze_repetition ''A a b'' 1)).
      dup_occurrences e = adjacent_positions (map lower (tokenize ''A a b'')) (dup_word e)"
    by (elim conjE)
  then have a: "adjacent_positions (map lower (tokenize ''A a b'')) ''a'' = [1]"
    unfolding e by simp
  from t have "(''b'' \<in> dup_word ` set (duplicate_words (analyze_repetition ''A a b'' 1)))
      = (adjacent_positions (map lower (tokenize ''A a b'')) ''b'' \<noteq> [])"
    by blast
  then have b: "adjacent_positions (map lower (tokenize ''A a b'')) ''b'' = []"
    unfolding e by simp
  from e a b show ?thesis
    by (intro conjI)
qed

section \<open>Counters\<close>

lemma Counter_snoc: "Counter (xs @ [x]) = counter_add x (Counter xs)"
  by (simp add: Counter_def)

lemma counter_add_keys: "fst ` set (counter_add w m) = insert w (fst ` set m)"
proof (induction m)
  case (Cons a m)
  obtain k n where a: "a = (k, n)"
    by (cases a)
  show ?case
  proof (cases "k = w")
    case True
    then show ?thesis by (simp add: a)
  next
    case False
    then show ?thesis using Cons by (simp add: a insert_commute)
  qed
qed simp

lemma counter_add_distinct:
  "distinct (map fst m) \<Longrightarrow> distinct (map fst (counter_add w m))"
proof (induction m)
  case (Cons a m)
  then show ?case
    using counter_add_keys [of w m] by (cases a) auto
qed simp

lemma counter_add_map_of:
  "map_of (counter_add w m) =
     (map_of m)(w \<mapsto> (case map_of m w of None \<Rightarrow> 1 | Some n \<Rightarrow> Suc n))"
  by (induction m) (auto simp: fun_eq_iff)

lemma count_list_snoc: "count_list (xs @ [x]) w = count_list xs w + (if x = w then 1 else 0)"
  by (induction xs) auto

lemma count_list_zero: "w \<notin> set xs \<Longrightarrow> count_list xs w = 0"
  by (induction xs) auto

lemma count_list_pos: "w \<in> set xs \<Longrightarrow> 0 < count_list xs w"
  by (induction xs) auto

lemma Counter_invariant:
  "distinct (map fst (Counter xs)) \<and>
   (\<forall>w. map_of (Counter xs) w = (if w \<in> set xs then Some (count_list xs w) else None))"
proof (induction xs rule: rev_induct)
  case Nil
  show ?case by (simp add: Counter_def)
next
  case (snoc x xs)
  then show ?case
    by (auto simp: Counter_snoc counter_add_distinct counter_add_map_of count_list_snoc
        count_list_zero)
qed

lemma Counter_entries:
  "(w, c) \<in> set (Counter xs) \<longleftrightarrow> w \<in> set xs \<and> c = count_list xs w"
proof -
  have "distinct (map fst (Counter xs))"
    using Counter_invariant [of xs] by (rule conjunct1)
  then have "(w, c) \<in> set (Counter xs) \<longleftrightarrow> map_of (Counter xs) w = Some c"
    by (rule map_of_eq_Some_iff [symmetric])
  also have "\<dots> \<longleftrightarrow> w \<in> set xs \<and> c = count_list xs w"
    using Counter_invariant [of xs] by auto
  finally show ?thesis .
qed

lemma counter_get_Counter: "counter_get (Counter xs) w = count_list xs w"
  using Counter_invariant [of xs] by (simp add: counter_get_def count_list_zero)

lemma count_list_filter: "P w \<Longrightarrow> count_list (filter P xs) w = count_list xs w"
  by (induction xs) auto

section \<open>Adverbs\<close>

lemma adverb_record_member:
  "a \<in> set (map (\<lambda>(w, c). \<lparr>adverb_word = w, adverb_count = c\<rparr>) l)
     \<longleftrightarrow> (adverb_word a, adverb_count a) \<in> set l"
  by (cases a) (force simp: image_iff case_prod_unfold)

lemma style_adverbs_member:
  "a \<in> set (style_adverbs text) \<longleftrightarrow>
     adverb_word a \<in> set (map lower (tokenize text)) \<and> 3 < length (adverb_word a)
     \<and> endswith (adverb_word a) ''ly'' \<and> adverb_word a \<notin> skip
     \<and> adverb_count a = count_list (map lower (tokenize text)) (adverb_word a)"
proof -
  let ?ws = "map lower (tokenize text)"
  let ?P = "\<lambda>w. length w > 3 \<and> endswith w ''ly''"
  let ?l = "filter (\<lambda>(w, c). w \<notin> skip) (Counter (filter ?P ?ws))"
  let ?mk = "\<lambda>(w, c). \<lparr>adverb_word = w, adverb_count = c\<rparr>"
  obtain w c where wc: "w = adverb_word a" "c = adverb_count a"
    by simp
  have "set (style_adverbs text) = set (map ?mk ?l)"
    by (simp add: style_adverbs_def Let_def)
  then have "a \<in> set (style_adverbs text) \<longleftrightarrow> a \<in> set (map ?mk ?l)"
    by simp
  also have "\<dots> \<longleftrightarrow> (w, c) \<in> set ?l"
    unfolding wc by (rule adverb_record_member)
  also have "\<dots> \<longleftrightarrow> (w, c) \<in> set (Counter (filter ?P ?ws)) \<and> w \<notin> skip"
    by auto
  also have "\<dots> \<longleftrightarrow> (w \<in> set (filter ?P ?ws) \<and> c = count_list (filter ?P ?ws) w) \<and> w \<notin> skip"
    by (simp only: Counter_entries)
  also have "\<dots> \<longleftrightarrow> (w \<in> set ?ws \<and> ?P w \<and> c = count_list ?ws w) \<and> w \<notin> skip"
  proof (cases "?P w")
    case True
    then have "count_list (filter ?P ?ws) w = count_list ?ws w"
      by (rule count_list_filter)
    with True show ?thesis by simp
  next
    case False
    then show ?thesis by auto
  qed
  finally show ?thesis
    unfolding wc by blast
qed

lemma style_adverbs_distinct: "distinct (map adverb_word (style_adverbs text))"
proof -
  let ?c = "Counter (filter (\<lambda>w. length w > 3 \<and> endswith w ''ly'') (map lower (tokenize text)))"
  let ?l = "filter (\<lambda>(w, c). w \<notin> skip) ?c"
  let ?mk = "\<lambda>(w, c). \<lparr>adverb_word = w, adverb_count = c\<rparr>"
  have "distinct (map fst ?c)"
    using Counter_invariant by (rule conjunct1)
  then have "distinct (map fst ?l)"
    by (rule distinct_map_filter)
  moreover have "map adverb_word (map ?mk ?l) = map fst ?l"
    by (simp add: case_prod_unfold)
  ultimately have d: "distinct (map adverb_word (map ?mk ?l))"
    by (simp only:)
  have "distinct (map adverb_word (sort_key adverb_key (map ?mk ?l)))"
    using d by (simp only: distinct_map set_sort distinct_sort)
  then show ?thesis
    by (simp add: style_adverbs_def Let_def)
qed

lemma style_adverbs_sorted:
  "sorted (map (\<lambda>a. (- int (adverb_count a), adverb_word a)) (style_adverbs text))"
proof -
  have "sorted (map adverb_key (style_adverbs text))"
    by (simp add: style_adverbs_def Let_def)
  moreover have "adverb_key = (\<lambda>a. (- int (adverb_count a), adverb_word a))"
    by (simp add: fun_eq_iff adverb_key_def)
  ultimately show ?thesis
    by simp
qed

lemma style_adverbs_words:
  "w \<in> adverb_word ` set (style_adverbs text) \<longleftrightarrow>
      w \<in> set (map lower (tokenize text)) \<and> 3 < length w \<and> endswith w ''ly'' \<and> w \<notin> skip"
proof
  assume "w \<in> adverb_word ` set (style_adverbs text)"
  then obtain a where a: "a \<in> set (style_adverbs text)" and w: "adverb_word a = w"
    by auto
  from a [unfolded style_adverbs_member]
  have "adverb_word a \<in> set (map lower (tokenize text)) \<and> 3 < length (adverb_word a)
     \<and> endswith (adverb_word a) ''ly'' \<and> adverb_word a \<notin> skip"
    by blast
  then show "w \<in> set (map lower (tokenize text)) \<and> 3 < length w \<and> endswith w ''ly'' \<and> w \<notin> skip"
    unfolding w .
next
  assume a: "w \<in> set (map lower (tokenize text)) \<and> 3 < length w \<and> endswith w ''ly'' \<and> w \<notin> skip"
  let ?a = "\<lparr>adverb_word = w, adverb_count = count_list (map lower (tokenize text)) w\<rparr>"
  have "?a \<in> set (style_adverbs text)"
    unfolding style_adverbs_member using a by simp
  then have "adverb_word ?a \<in> adverb_word ` set (style_adverbs text)"
    by (rule imageI)
  then show "w \<in> adverb_word ` set (style_adverbs text)"
    by simp
qed


text \<open>
  C9. The adverb findings are exactly the lowercased tokens longer than 3 characters
  that end in \<open>ly\<close> and are not in the exclusion set, one finding per word with its
  number of occurrences, sorted by descending count, then by ascending word; \<open>family\<close>
  and \<open>only\<close> never appear and \<open>quickly\<close> is counted.
\<close>

theorem adverbs_counted:
  "distinct (map adverb_word (adverbs (analyze_style text threshold)))
   \<and> (\<forall>w. w \<in> adverb_word ` set (adverbs (analyze_style text threshold)) \<longleftrightarrow>
          w \<in> set (map lower (tokenize text)) \<and> 3 < length w \<and> endswith w ''ly''
          \<and> w \<notin> {''family'', ''only'', ''supply'', ''reply'', ''apply'', ''imply''})
   \<and> (\<forall>a\<in>set (adverbs (analyze_style text threshold)).
          adverb_count a = count_list (map lower (tokenize text)) (adverb_word a))
   \<and> sorted (map (\<lambda>a. (- int (adverb_count a), adverb_word a)) (adverbs (analyze_style text threshold)))
   \<and> ''family'' \<notin> adverb_word ` set (adverbs (analyze_style text threshold))
   \<and> ''only'' \<notin> adverb_word ` set (adverbs (analyze_style text threshold))
   \<and> adverbs (analyze_style ''Only family ran quickly.'' 30) =
        [\<lparr>adverb_word = ''quickly'', adverb_count = 1\<rparr>]"
proof -
  let ?ws = "map lower (tokenize text)"
  have eq: "adverbs (analyze_style text threshold) = style_adverbs text"
    by (simp add: analyze_style_def Let_def)
  have c1: "distinct (map adverb_word (adverbs (analyze_style text threshold)))"
    unfolding eq by (rule style_adverbs_distinct)
  have c2: "\<forall>w. w \<in> adverb_word ` set (adverbs (analyze_style text threshold)) \<longleftrightarrow>
          w \<in> set ?ws \<and> 3 < length w \<and> endswith w ''ly''
          \<and> w \<notin> {''family'', ''only'', ''supply'', ''reply'', ''apply'', ''imply''}"
    unfolding eq style_adverbs_words skip_def by (rule allI) (rule refl)
  have c3: "\<forall>a\<in>set (adverbs (analyze_style text threshold)).
          adverb_count a = count_list ?ws (adverb_word a)"
  proof
    fix a
    assume "a \<in> set (adverbs (analyze_style text threshold))"
    then have "a \<in> set (style_adverbs text)"
      by (simp only: eq)
    from this [unfolded style_adverbs_member]
    show "adverb_count a = count_list ?ws (adverb_word a)"
      by (elim conjE)
  qed
  have c4: "sorted (map (\<lambda>a. (- int (adverb_count a), adverb_word a)) (adverbs (analyze_style text threshold)))"
    unfolding eq by (rule style_adverbs_sorted)
  have c5: "''family'' \<notin> adverb_word ` set (adverbs (analyze_style text threshold))"
    unfolding eq style_adverbs_words skip_def by simp
  have c6: "''only'' \<notin> adverb_word ` set (adverbs (analyze_style text threshold))"
    unfolding eq style_adverbs_words skip_def by simp
  have c7: "adverbs (analyze_style ''Only family ran quickly.'' 30) =
        [\<lparr>adverb_word = ''quickly'', adverb_count = 1\<rparr>]"
    by code_simp
  from c1 c2 c3 c4 c5 c6 c7 show ?thesis
    by (intro conjI)
qed

theorem adverbs_counted_witness:
  "adverbs (analyze_style ''Really, really slowly; only family.'' 30) =
     [\<lparr>adverb_word = ''really'', adverb_count = 2\<rparr>, \<lparr>adverb_word = ''slowly'', adverb_count = 1\<rparr>]
   \<and> count_list (map lower (tokenize ''Really, really slowly; only family.'')) ''really'' = 2
   \<and> ''only'' \<in> set (map lower (tokenize ''Really, really slowly; only family.''))"
proof -
  let ?t = "''Really, really slowly; only family.''"
  note t = adverbs_counted [of ?t 30]
  have e: "adverbs (analyze_style ?t 30) =
     [\<lparr>adverb_word = ''really'', adverb_count = 2\<rparr>, \<lparr>adverb_word = ''slowly'', adverb_count = 1\<rparr>]"
    by code_simp
  from t have "\<forall>a\<in>set (adverbs (analyze_style ?t 30)).
      adverb_count a = count_list (map lower (tokenize ?t)) (adverb_word a)"
    by (elim conjE)
  moreover have "\<lparr>adverb_word = ''really'', adverb_count = 2\<rparr> \<in> set (adverbs (analyze_style ?t 30))"
    unfolding e by simp
  ultimately have "adverb_count \<lparr>adverb_word = ''really'', adverb_count = 2\<rparr>
      = count_list (map lower (tokenize ?t)) (adverb_word \<lparr>adverb_word = ''really'', adverb_count = 2\<rparr>)"
    by (rule bspec)
  then have a: "count_list (map lower (tokenize ?t)) ''really'' = 2"
    by (simp only: adverb.select_convs)
  have b: "''only'' \<in> set (map lower (tokenize ?t))"
    by code_simp
  from e a b show ?thesis
    by (intro conjI)
qed

section \<open>Spelling issues\<close>

lemma unknown_finite: "finite (unknown spell ws)"
  by (simp add: unknown_def)

lemma unknown_lower_tokens:
  "unknown spell (lower_tokens text) =
     {lower t | t. t \<in> set (word_runs text) \<and> str_isalpha t \<and> \<not> list_ex isupper t
                  \<and> \<not> known spell (lower t)}"
  by (auto simp: unknown_def lower_tokens_def)

text \<open>
  C8, as stated, fails when the candidate tokens are those of \<open>tokenize\<close>, as the
  specification has them: in \<open>"x1y a_b"\<close> the tokens \<open>x\<close>, \<open>y\<close>, \<open>a\<close>, \<open>b\<close> are
  alphabetic, lowercase and unknown, and the code reports no issue, because its own
  tokens \<open>x1y\<close> and \<open>a_b\<close> are not alphabetic.
\<close>

theorem spelling_tokens_counterexample:
  "tokenize ''x1y a_b'' = [''x'', ''y'', ''a'', ''b'']
   \<and> candidate_tokens_spec ''x1y a_b'' = [''x'', ''y'', ''a'', ''b'']
   \<and> sorted_list_of_set (unknown sample_speller (candidate_tokens_spec ''x1y a_b''))
       = [''a'', ''b'', ''x'', ''y'']
   \<and> lower_tokens ''x1y a_b'' = []
   \<and> analyze_spelling sample_libraries ''x1y a_b'' ''en'' = Inr \<lparr>total_unknown = 0, issues = []\<rparr>"
proof -
  have "tokenize ''x1y a_b'' = [''x'', ''y'', ''a'', ''b'']"
    by code_simp
  moreover have "candidate_tokens_spec ''x1y a_b'' = [''x'', ''y'', ''a'', ''b'']"
    by code_simp
  moreover have "sorted_list_of_set (unknown sample_speller (candidate_tokens_spec ''x1y a_b''))
       = [''a'', ''b'', ''x'', ''y'']"
    by code_simp
  moreover have "lower_tokens ''x1y a_b'' = []"
    by code_simp
  moreover have "analyze_spelling sample_libraries ''x1y a_b'' ''en''
      = Inr \<lparr>total_unknown = 0, issues = []\<rparr>"
    by code_simp
  ultimately show ?thesis
    by (intro conjI)
qed

text \<open>
  C8, amended. When the language has a dictionary, the spelling issues hold exactly one
  entry per distinct unknown word among the candidate tokens, sorted by word, where
  the tokens are the matches of \<open>\b\w+\b\<close> (not the tokens of \<open>tokenize\<close>) and a
  candidate is such a match that is purely alphabetic and has no uppercase letter in
  its original form; the filter looks at the token before it is lowercased.
\<close>

theorem spelling_issues_sorted_distinct:
  assumes "SpellChecker libs lng = Some spell"
  shows "\<exists>sp. analyze_spelling libs text lng = Inr sp
     \<and> set (map issue_word (issues sp)) =
         {lower t | t. t \<in> set (word_runs text) \<and> str_isalpha t \<and> \<not> list_ex isupper t
                      \<and> \<not> known spell (lower t)}
     \<and> distinct (map issue_word (issues sp))
     \<and> sorted (map issue_word (issues sp))
     \<and> (\<forall>i\<in>set (issues sp). issue_suggestion i = correction spell (issue_word i))
     \<and> total_unknown sp = length (issues sp)"
proof -
  let ?u = "unknown spell (lower_tokens text)"
  let ?is = "map (\<lambda>w. \<lparr>issue_word = w, issue_suggestion = correction spell w\<rparr>) (sorted_list_of_set ?u)"
  let ?sp = "\<lparr>total_unknown = length ?is, issues = ?is\<rparr>"
  have r: "analyze_spelling libs text lng = Inr ?sp"
    using assms by (simp add: analyze_spelling_def Let_def)
  have w: "map issue_word (issues ?sp) = sorted_list_of_set ?u"
    by (simp add: comp_def)
  have "set (map issue_word (issues ?sp)) = ?u"
    unfolding w using unknown_finite by simp
  then have c1: "set (map issue_word (issues ?sp)) =
         {lower t | t. t \<in> set (word_runs text) \<and> str_isalpha t \<and> \<not> list_ex isupper t
                      \<and> \<not> known spell (lower t)}"
    by (simp only: unknown_lower_tokens)
  have c2: "distinct (map issue_word (issues ?sp))"
    unfolding w by simp
  have c3: "sorted (map issue_word (issues ?sp))"
    unfolding w by simp
  have c4: "\<forall>i\<in>set (issues ?sp). issue_suggestion i = correction spell (issue_word i)"
    by auto
  have c5: "total_unknown ?sp = length (issues ?sp)"
    by simp
  from r c1 c2 c3 c4 c5 show ?thesis
    by blast
qed

lemma sample_spelling_value: "analyze_spelling sample_libraries ''Teh cat zat, teh mat_1 on teh mat'' ''en'' =
    Inr \<lparr>total_unknown = 4, issues = [\<lparr>issue_word = ''mat'', issue_suggestion = None\<rparr>,
      \<lparr>issue_word = ''on'', issue_suggestion = None\<rparr>,
      \<lparr>issue_word = ''teh'', issue_suggestion = None\<rparr>,
      \<lparr>issue_word = ''zat'', issue_suggestion = None\<rparr>]\<rparr>"
  by code_simp


theorem spelling_issues_sorted_distinct_witness:
  "\<exists>sp. analyze_spelling sample_libraries ''Teh cat zat, teh mat_1 on teh mat'' ''en'' = Inr sp
     \<and> map issue_word (issues sp) = [''mat'', ''on'', ''teh'', ''zat'']
     \<and> distinct (map issue_word (issues sp)) \<and> sorted (map issue_word (issues sp))
     \<and> total_unknown sp = 4"
proof -
  let ?t = "''Teh cat zat, teh mat_1 on teh mat''"
  have h: "SpellChecker sample_libraries ''en'' = Some sample_speller"
    by (simp add: sample_libraries_def)
  from spelling_issues_sorted_distinct [OF h, of ?t]
  obtain sp where c: "analyze_spelling sample_libraries ?t ''en'' = Inr sp
     \<and> set (map issue_word (issues sp)) =
         {lower t | t. t \<in> set (word_runs ?t) \<and> str_isalpha t \<and> \<not> list_ex isupper t
                      \<and> \<not> known sample_speller (lower t)}
     \<and> distinct (map issue_word (issues sp))
     \<and> sorted (map issue_word (issues sp))
     \<and> (\<forall>i\<in>set (issues sp). issue_suggestion i = correction sample_speller (issue_word i))
     \<and> total_unknown sp = length (issues sp)"
    by (rule exE)
  from c have sp: "analyze_spelling sample_libraries ?t ''en'' = Inr sp"
    by (elim conjE)
  from c have d: "distinct (map issue_word (issues sp))"
    by (elim conjE)
  from c have s: "sorted (map issue_word (issues sp))"
    by (elim conjE)
  from sp have "sp = \<lparr>total_unknown = 4, issues = [\<lparr>issue_word = ''mat'', issue_suggestion = None\<rparr>,
      \<lparr>issue_word = ''on'', issue_suggestion = None\<rparr>,
      \<lparr>issue_word = ''teh'', issue_suggestion = None\<rparr>,
      \<lparr>issue_word = ''zat'', issue_suggestion = None\<rparr>]\<rparr>"
    unfolding sample_spelling_value by (simp only: sum.inject)
  then have w: "map issue_word (issues sp) = [''mat'', ''on'', ''teh'', ''zat'']"
    and n: "total_unknown sp = 4"
    by simp_all
  from sp w d s n show ?thesis
    by (intro exI [of _ sp] conjI)
qed

section \<open>Duplicate sentences\<close>

lemma dedup_sentences_Cons:
  "dedup_sentences seen (x # xs) =
     (if sentence_key x \<notin> seen then x # dedup_sentences (insert (sentence_key x) seen) xs
      else dedup_sentences seen xs)"
  by (simp add: Let_def sentence_key_def)

lemma dedup_sentences_append:
  "dedup_sentences seen (xs @ ys) =
     dedup_sentences seen xs @ dedup_sentences (seen \<union> sentence_key ` set xs) ys"
proof (induction xs arbitrary: seen)
  case Nil
  show ?case by simp
next
  case (Cons x xs)
  show ?case
  proof (cases "sentence_key x \<in> seen")
    case True
    then have "seen \<union> sentence_key ` set (x # xs) = seen \<union> sentence_key ` set xs"
      by auto
    with True Cons [of seen] show ?thesis
      by (simp only: append_Cons dedup_sentences_Cons if_False not_True_eq_False not_not)
  next
    case False
    have "seen \<union> sentence_key ` set (x # xs) = insert (sentence_key x) seen \<union> sentence_key ` set xs"
      by auto
    with False Cons [of "insert (sentence_key x) seen"] show ?thesis
      by (simp only: append_Cons dedup_sentences_Cons if_True not_False_eq_True)
  qed
qed

lemma comprehension_filter:
  "concat (map (\<lambda>x. if P x then [f x] else []) xs) = map f (filter P xs)"
  by (induction xs) simp_all


lemma dedup_sentences_single:
  "dedup_sentences seen [x] = (if sentence_key x \<notin> seen then [x] else [])"
  by (simp only: dedup_sentences_Cons dedup_sentences.simps(1))

lemma dedup_first_occurrences:
  assumes "\<And>i. i < n \<Longrightarrow> sentence_key (mk i) = key i"
    and "\<And>i j. i < n \<Longrightarrow> j < n \<Longrightarrow> key i = key j \<Longrightarrow> Q i = Q j"
  shows "dedup_sentences {} (map mk (filter Q [0..<n])) =
     map mk (filter (\<lambda>i. Q i \<and> (\<forall>j<i. key j \<noteq> key i)) [0..<n])"
  using assms
proof (induction n)
  case 0
  show ?case by simp
next
  case (Suc n)
  let ?F = "\<lambda>i. Q i \<and> (\<forall>j<i. key j \<noteq> key i)"
  have k: "sentence_key (mk i) = key i" if "i < Suc n" for i
    using that by (rule Suc.prems(1))
  have ih: "dedup_sentences {} (map mk (filter Q [0..<n])) = map mk (filter ?F [0..<n])"
  proof (rule Suc.IH)
    show "sentence_key (mk i) = key i" if "i < n" for i
      using that by (intro Suc.prems(1)) simp
    show "Q i = Q j" if "i < n" "j < n" "key i = key j" for i j
      using that by (intro Suc.prems(2)) simp_all
  qed
  show ?case
  proof (cases "Q n")
    case False
    then show ?thesis
      using ih by simp
  next
    case True
    have keys: "sentence_key ` set (map mk (filter Q [0..<n])) = key ` {i. i < n \<and> Q i}"
      using k by (auto simp: image_iff)
    have first: "key n \<notin> key ` {i. i < n \<and> Q i} \<longleftrightarrow> (\<forall>j<n. key j \<noteq> key n)"
    proof
      assume a: "key n \<notin> key ` {i. i < n \<and> Q i}"
      show "\<forall>j<n. key j \<noteq> key n"
      proof (intro allI impI notI)
        fix j
        assume j: "j < n" and e: "key j = key n"
        then have "Q j = Q n"
          by (intro Suc.prems(2)) simp_all
        with True j have "key j \<in> key ` {i. i < n \<and> Q i}"
          by blast
        with a e show False
          by simp
      qed
    next
      assume "\<forall>j<n. key j \<noteq> key n"
      then show "key n \<notin> key ` {i. i < n \<and> Q i}"
        by force
    qed
    have "dedup_sentences {} (map mk (filter Q [0..<Suc n]))
        = dedup_sentences {} (map mk (filter Q [0..<n]) @ [mk n])"
      using True by simp
    also have "\<dots> = map mk (filter ?F [0..<n])
        @ dedup_sentences (key ` {i. i < n \<and> Q i}) [mk n]"
      by (simp only: dedup_sentences_append ih keys Un_empty_left)
    also have "dedup_sentences (key ` {i. i < n \<and> Q i}) [mk n]
        = (if \<forall>j<n. key j \<noteq> key n then [mk n] else [])"
      by (simp only: dedup_sentences_single k [of n, OF lessI] first)
    also have "map mk (filter ?F [0..<n]) @ (if \<forall>j<n. key j \<noteq> key n then [mk n] else [])
        = map mk (filter ?F [0..<Suc n])"
      using True by simp
    finally show ?thesis .
  qed
qed


lemma count_nonempty:
  "x \<noteq> [] \<Longrightarrow> counter_get (Counter (filter (\<lambda>n. n \<noteq> []) xs)) x = count_list xs x"
  by (simp only: counter_get_Counter) (rule count_list_filter)

lemma repetition_dup_sentences_first:
  "repetition_dup_sentences text max_dup =
     map (\<lambda>i. \<lparr>dup_sentence = split_sentences text ! i,
               dup_count = count_list (map normalize_sentence (split_sentences text))
                                      (map normalize_sentence (split_sentences text) ! i)\<rparr>)
         (filter (\<lambda>i. map normalize_sentence (split_sentences text) ! i \<noteq> []
                  \<and> max_dup < int (count_list (map normalize_sentence (split_sentences text))
                                              (map normalize_sentence (split_sentences text) ! i))
                  \<and> (\<forall>j<i. map normalize_sentence (split_sentences text) ! j
                            \<noteq> map normalize_sentence (split_sentences text) ! i))
                 [0..<length (split_sentences text)])"
proof -
  define sents where "sents = split_sentences text"
  define norm where "norm = map normalize_sentence sents"
  define counts where "counts = Counter (filter (\<lambda>n. n \<noteq> []) norm)"
  define Q where "Q = (\<lambda>i. norm ! i \<noteq> [] \<and> int (counter_get counts (norm ! i)) > max_dup)"
  define mk where "mk = (\<lambda>i. \<lparr>dup_sentence = sents ! i, dup_count = counter_get counts (norm ! i)\<rparr>)"
  define mk' where "mk' = (\<lambda>i. \<lparr>dup_sentence = sents ! i, dup_count = count_list norm (norm ! i)\<rparr>)"
  define G where "G = (\<lambda>i. norm ! i \<noteq> [] \<and> max_dup < int (count_list norm (norm ! i))
      \<and> (\<forall>j<i. norm ! j \<noteq> norm ! i))"
  have "repetition_dup_sentences text max_dup =
      dedup_sentences {} (concat (map (\<lambda>i. if Q i then [mk i] else []) [0..<length sents]))"
    unfolding repetition_dup_sentences_def Let_def Q_def mk_def counts_def norm_def sents_def
    by (rule refl)
  also have "\<dots> = dedup_sentences {} (map mk (filter Q [0..<length sents]))"
    by (simp only: comprehension_filter)
  also have "\<dots> = map mk (filter (\<lambda>i. Q i \<and> (\<forall>j<i. norm ! j \<noteq> norm ! i)) [0..<length sents])"
  proof (rule dedup_first_occurrences)
    show "sentence_key (mk i) = norm ! i" if "i < length sents" for i
      using that by (simp add: sentence_key_def mk_def norm_def)
    show "Q i = Q j" if "norm ! i = norm ! j" for i j
      using that by (simp add: Q_def)
  qed
  also have "filter (\<lambda>i. Q i \<and> (\<forall>j<i. norm ! j \<noteq> norm ! i)) [0..<length sents]
      = filter G [0..<length sents]"
    by (rule filter_cong) (auto simp: Q_def G_def counts_def count_nonempty)
  also have "map mk (filter G [0..<length sents]) = map mk' (filter G [0..<length sents])"
    by (rule map_cong) (auto simp: G_def mk_def mk'_def counts_def count_nonempty)
  finally show ?thesis
    by (simp only: mk'_def G_def norm_def sents_def)
qed


lemma duplicate_sentences_first:
  "duplicate_sentences (analyze_repetition text max_dup) =
     map (\<lambda>i. \<lparr>dup_sentence = split_sentences text ! i,
               dup_count = count_list (normalized text) (normalized text ! i)\<rparr>)
         (filter (\<lambda>i. normalized text ! i \<noteq> []
                  \<and> max_dup < int (count_list (normalized text) (normalized text ! i))
                  \<and> (\<forall>j<i. normalized text ! j \<noteq> normalized text ! i))
                 [0..<length (split_sentences text)])"
proof -
  have "duplicate_sentences (analyze_repetition text max_dup) = repetition_dup_sentences text max_dup"
    by (simp add: analyze_repetition_def)
  then show ?thesis
    unfolding normalized_def by (simp only: repetition_dup_sentences_first)
qed

lemma duplicate_sentences_found:
  assumes "s \<in> set (split_sentences text)"
  shows "(\<exists>f\<in>set (duplicate_sentences (analyze_repetition text max_dup)).
            normalize_sentence (dup_sentence f) = normalize_sentence s)
     \<longleftrightarrow> normalize_sentence s \<noteq> []
         \<and> max_dup < int (count_list (normalized text) (normalize_sentence s))"
proof -
  define sents where "sents = split_sentences text"
  define norm where "norm = normalized text"
  define G where "G = (\<lambda>i. norm ! i \<noteq> [] \<and> max_dup < int (count_list norm (norm ! i))
      \<and> (\<forall>j<i. norm ! j \<noteq> norm ! i))"
  define mk where "mk = (\<lambda>i. \<lparr>dup_sentence = sents ! i, dup_count = count_list norm (norm ! i)\<rparr>)"
  have F: "duplicate_sentences (analyze_repetition text max_dup) = map mk (filter G [0..<length sents])"
    unfolding mk_def G_def norm_def sents_def by (rule duplicate_sentences_first)
  have n: "norm ! i = normalize_sentence (sents ! i)" if "i < length sents" for i
    using that by (simp add: norm_def normalized_def sents_def)
  from assms obtain k where k: "k < length sents" and s: "s = sents ! k"
    unfolding sents_def by (auto simp: in_set_conv_nth)
  show ?thesis
  proof
    assume "\<exists>f\<in>set (duplicate_sentences (analyze_repetition text max_dup)).
        normalize_sentence (dup_sentence f) = normalize_sentence s"
    then obtain i where i: "i < length sents" and g: "G i"
      and e: "normalize_sentence (dup_sentence (mk i)) = normalize_sentence s"
      unfolding F by auto
    from e i have "norm ! i = normalize_sentence s"
      by (simp add: mk_def n)
    with g show "normalize_sentence s \<noteq> []
        \<and> max_dup < int (count_list (normalized text) (normalize_sentence s))"
      by (simp add: G_def norm_def)
  next
    assume a: "normalize_sentence s \<noteq> []
        \<and> max_dup < int (count_list (normalized text) (normalize_sentence s))"
    define i where "i = (LEAST i. norm ! i = norm ! k)"
    have e: "norm ! i = norm ! k"
      unfolding i_def by (rule LeastI [of "\<lambda>i. norm ! i = norm ! k" k]) (rule refl)
    have "i \<le> k"
      unfolding i_def by (rule Least_le) (rule refl)
    with k have i: "i < length sents"
      by simp
    have "norm ! j \<noteq> norm ! i" if "j < i" for j
      using that not_less_Least [of j "\<lambda>i. norm ! i = norm ! k"] e by (simp add: i_def)
    moreover from a have "norm ! i \<noteq> []" and "max_dup < int (count_list norm (norm ! i))"
      by (simp_all add: e n [OF k] s norm_def [symmetric])
    ultimately have "G i"
      by (simp add: G_def)
    with i have "mk i \<in> set (duplicate_sentences (analyze_repetition text max_dup))"
      unfolding F by simp
    moreover have "normalize_sentence (dup_sentence (mk i)) = normalize_sentence s"
      using e by (simp add: mk_def n [OF i, symmetric] n [OF k, symmetric] s)
    ultimately show "\<exists>f\<in>set (duplicate_sentences (analyze_repetition text max_dup)).
        normalize_sentence (dup_sentence f) = normalize_sentence s"
      by blast
  qed
qed


text \<open>
  C7, as stated, fails: a sentence whose normalized form is empty is never a finding,
  however often it occurs. In \<open>"!!! !!!"\<close> the sentence \<open>"!!!"\<close> occurs twice, its
  normalized form is empty, and with threshold 1 nothing is reported.
\<close>

theorem duplicate_sentences_empty_form_counterexample:
  "''!!!'' \<in> set (split_sentences ''!!! !!!'')
   \<and> normalize_sentence ''!!!'' = []
   \<and> 1 < int (count_list (normalized ''!!! !!!'') (normalize_sentence ''!!!''))
   \<and> duplicate_sentences (analyze_repetition ''!!! !!!'' 1) = []"
proof -
  have "''!!!'' \<in> set (split_sentences ''!!! !!!'')"
    by code_simp
  moreover have "normalize_sentence ''!!!'' = []"
    by code_simp
  moreover have "1 < int (count_list (normalized ''!!! !!!'') (normalize_sentence ''!!!''))"
    by code_simp
  moreover have "duplicate_sentences (analyze_repetition ''!!! !!!'' 1) = []"
    by code_simp
  ultimately show ?thesis
    by (intro conjI)
qed

text \<open>
  C7, amended. A sentence produces a duplicate-sentence finding exactly when its
  normalized form is not empty and the number of sentences of the text with that
  normalized form exceeds the threshold. The findings are the first sentences of each
  such form, in the order of the text, each with its original text and that number.
  \<open>"Stop. Stop. Go."\<close> with threshold 1 gives one finding, \<open>"Stop."\<close> with count 2, and
  \<open>"Stop. Go."\<close> gives none.
\<close>

theorem duplicate_sentences_first_occurrences:
  "duplicate_sentences (analyze_repetition text max_dup) =
     map (\<lambda>i. \<lparr>dup_sentence = split_sentences text ! i,
               dup_count = count_list (normalized text) (normalized text ! i)\<rparr>)
         (filter (\<lambda>i. normalized text ! i \<noteq> []
                  \<and> max_dup < int (count_list (normalized text) (normalized text ! i))
                  \<and> (\<forall>j<i. normalized text ! j \<noteq> normalized text ! i))
                 [0..<length (split_sentences text)])
   \<and> (\<forall>s\<in>set (split_sentences text).
         (\<exists>f\<in>set (duplicate_sentences (analyze_repetition text max_dup)).
            normalize_sentence (dup_sentence f) = normalize_sentence s)
         \<longleftrightarrow> normalize_sentence s \<noteq> []
             \<and> max_dup < int (count_list (normalized text) (normalize_sentence s)))
   \<and> duplicate_sentences (analyze_repetition ''Stop. Stop. Go.'' 1) =
        [\<lparr>dup_sentence = ''Stop.'', dup_count = 2\<rparr>]
   \<and> duplicate_sentences (analyze_repetition ''Stop. Go.'' 1) = []"
proof -
  have c1: "duplicate_sentences (analyze_repetition ''Stop. Stop. Go.'' 1) =
        [\<lparr>dup_sentence = ''Stop.'', dup_count = 2\<rparr>]"
    by code_simp
  have c2: "duplicate_sentences (analyze_repetition ''Stop. Go.'' 1) = []"
    by code_simp
  have c3: "\<forall>s\<in>set (split_sentences text).
         (\<exists>f\<in>set (duplicate_sentences (analyze_repetition text max_dup)).
            normalize_sentence (dup_sentence f) = normalize_sentence s)
         \<longleftrightarrow> normalize_sentence s \<noteq> []
             \<and> max_dup < int (count_list (normalized text) (normalize_sentence s))"
    by (rule ballI) (rule duplicate_sentences_found)
  from duplicate_sentences_first [of "text" max_dup] c3 c1 c2 show ?thesis
    by (intro conjI)
qed

theorem duplicate_sentences_first_occurrences_witness:
  "duplicate_sentences (analyze_repetition ''Stop. stop! Go.'' 1) =
     [\<lparr>dup_sentence = ''Stop.'', dup_count = 2\<rparr>]
   \<and> ''stop!'' \<in> set (split_sentences ''Stop. stop! Go.'')
   \<and> normalize_sentence ''stop!'' \<noteq> []
   \<and> 1 < int (count_list (normalized ''Stop. stop! Go.'') (normalize_sentence ''stop!''))"
proof -
  let ?t = "''Stop. stop! Go.''"
  let ?f = "\<lparr>dup_sentence = ''Stop.'', dup_count = 2\<rparr>"
  note t = duplicate_sentences_first_occurrences [of ?t 1]
  have e: "duplicate_sentences (analyze_repetition ?t 1) = [?f]"
    by code_simp
  have m: "''stop!'' \<in> set (split_sentences ?t)"
    by code_simp
  have q: "normalize_sentence ''Stop.'' = normalize_sentence ''stop!''"
    by code_simp
  from t have "\<forall>s\<in>set (split_sentences ?t).
         (\<exists>f\<in>set (duplicate_sentences (analyze_repetition ?t 1)).
            normalize_sentence (dup_sentence f) = normalize_sentence s)
         \<longleftrightarrow> normalize_sentence s \<noteq> []
             \<and> 1 < int (count_list (normalized ?t) (normalize_sentence s))"
    by (elim conjE)
  from this m have i: "(\<exists>f\<in>set (duplicate_sentences (analyze_repetition ?t 1)).
            normalize_sentence (dup_sentence f) = normalize_sentence ''stop!'')
         \<longleftrightarrow> normalize_sentence ''stop!'' \<noteq> []
             \<and> 1 < int (count_list (normalized ?t) (normalize_sentence ''stop!''))"
    by (rule bspec)
  have "\<exists>f\<in>set (duplicate_sentences (analyze_repetition ?t 1)).
            normalize_sentence (dup_sentence f) = normalize_sentence ''stop!''"
  proof (rule bexI [of _ ?f])
    show "normalize_sentence (dup_sentence ?f) = normalize_sentence ''stop!''"
      by (simp only: duplicate_sentence.select_convs q)
    show "?f \<in> set (duplicate_sentences (analyze_repetition ?t 1))"
      unfolding e by simp
  qed
  with i have c: "normalize_sentence ''stop!'' \<noteq> []
             \<and> 1 < int (count_list (normalized ?t) (normalize_sentence ''stop!''))"
    by (rule iffD1)
  from c have n1: "normalize_sentence ''stop!'' \<noteq> []"
    by (rule conjunct1)
  from c have n2: "1 < int (count_list (normalized ?t) (normalize_sentence ''stop!''))"
    by (rule conjunct2)
  from e m n1 n2 show ?thesis
    by (intro conjI)
qed

section \<open>One segmenter for all analyses\<close>

text \<open>
  C1, as stated, fails for the spelling checker, which does not use \<open>tokenize\<close>: it
  takes the runs of word characters. In \<open>"don't"\<close> it considers \<open>don\<close> and \<open>t\<close>, while
  \<open>tokenize\<close> gives the single token \<open>don't\<close>, which is not alphabetic.
\<close>

theorem spelling_segmentation_counterexample:
  "lower_tokens ''don't'' = [''don'', ''t''] \<and> tokenize ''don't'' = [''don't'']
   \<and> filter str_isalpha (tokenize ''don't'') = []
   \<and> set (lower_tokens ''don't'') \<noteq> set (filter str_isalpha (tokenize ''don't''))"
  by code_simp

lemma letter_word: "ascii_letter c \<Longrightarrow> isword c"
  by (simp add: isword_def isalpha_def)

lemma plain_word: "plain_char c \<Longrightarrow> isword c = ascii_letter c"
  using letter_word [of c] by (auto simp: plain_char_def ascii_letter_def)

lemma joiner_ord: "joiner c \<Longrightarrow> ord c = 45 \<or> ord c = 39"
  by (auto simp: joiner_def ord_def)

lemma plain_not_joiner: "plain_char c \<Longrightarrow> \<not> joiner c"
  using joiner_ord [of c] by (auto simp: plain_char_def between_def)

lemma plain_lower:
  assumes "plain_char c" and "isword c"
  shows "isalpha c" and "\<not> isupper c" and "lower_char c = c"
proof -
  from assms have b: "between 97 122 (ord c)"
    by (auto simp: plain_char_def)
  then show "isalpha c"
    by (simp add: isalpha_def ascii_letter_def)
  from b show u: "\<not> isupper c"
    unfolding isupper_def between_def by linarith
  then show "lower_char c = c"
    by (simp add: lower_char_def)
qed

lemma token_tail_none: "r = [] \<or> \<not> joiner (hd r) \<Longrightarrow> token_tail r = ([], r)"
  by (cases r rule: token_tail.cases) auto

lemma word_runs_tokenize:
  "\<forall>c\<in>set text. plain_char c \<Longrightarrow> word_runs text = tokenize text"
proof (induction "text" rule: word_runs.induct)
  case 1
  show ?case by simp
next
  case (2 c cs)
  have pc: "plain_char c" and pcs: "\<forall>d\<in>set cs. plain_char d"
    using "2.prems" by simp_all
  show ?case
  proof (cases "isword c")
    case False
    with pc have "\<not> ascii_letter c"
      by (simp add: plain_word)
    with False "2.IH"(2) pcs show ?thesis
      by simp
  next
    case True
    with pc have l: "ascii_letter c"
      by (simp add: plain_word)
    have t: "takeWhile isword cs = takeWhile ascii_letter cs"
      by (rule takeWhile_cong) (simp_all add: pcs plain_word)
    have d: "dropWhile isword cs = dropWhile ascii_letter cs"
      by (rule dropWhile_cong) (simp_all add: pcs plain_word)
    let ?r = "dropWhile ascii_letter cs"
    have "\<forall>d\<in>set ?r. plain_char d"
      using pcs by (auto dest: set_dropWhileD)
    then have ih: "word_runs ?r = tokenize ?r"
      using "2.IH"(1) [OF True] by (simp only: d)
    have "?r = [] \<or> \<not> joiner (hd ?r)"
    proof (cases ?r)
      case Nil
      then show ?thesis by simp
    next
      case (Cons x xs)
      then have "x \<in> set cs"
        by (metis list.set_intros(1) set_dropWhileD)
      with pcs Cons show ?thesis
        by (simp add: plain_not_joiner)
    qed
    then have tt: "token_tail ?r = ([], ?r)"
      by (rule token_tail_none)
    show ?thesis
      using True l by (simp add: t d tt ih)
  qed
qed

lemma word_runs_chars:
  "t \<in> set (word_runs text) \<Longrightarrow> t \<noteq> [] \<and> (\<forall>c\<in>set t. c \<in> set text \<and> isword c)"
proof (induction "text" rule: word_runs.induct)
  case 1
  then show ?case by simp
next
  case (2 c cs)
  show ?case
  proof (cases "isword c")
    case False
    with 2 show ?thesis by auto
  next
    case True
    with "2.prems" have "t = c # takeWhile isword cs \<or> t \<in> set (word_runs (dropWhile isword cs))"
      by simp
    then show ?thesis
    proof
      assume "t = c # takeWhile isword cs"
      with True show ?thesis
        by (auto dest: set_takeWhileD)
    next
      assume "t \<in> set (word_runs (dropWhile isword cs))"
      with "2.IH"(1) [OF True] show ?thesis
        by (auto dest: set_dropWhileD)
    qed
  qed
qed

lemma lower_tokens_plain:
  assumes "\<forall>c\<in>set text. plain_char c"
  shows "lower_tokens text = tokenize text"
proof -
  have k: "str_isalpha t \<and> \<not> list_ex isupper t \<and> lower t = t" if "t \<in> set (word_runs text)" for t
  proof -
    from that word_runs_chars [of t "text"] have n: "t \<noteq> []"
      and c: "\<forall>c\<in>set t. plain_char c \<and> isword c"
      using assms by auto
    from c have "\<forall>c\<in>set t. isalpha c \<and> \<not> isupper c \<and> lower_char c = c"
      using plain_lower by blast
    with n show ?thesis
      by (simp add: str_isalpha_def list_all_iff list_ex_iff lower_def map_idI)
  qed
  then have "filter (\<lambda>t. str_isalpha t \<and> \<not> list_ex isupper t) (word_runs text) = word_runs text"
    by (simp add: filter_id_conv)
  moreover have "map lower (word_runs text) = word_runs text"
    using k by (simp add: map_idI)
  ultimately show ?thesis
    using word_runs_tokenize [OF assms] by (simp add: lower_tokens_def)
qed


lemma tokens_determine:
  assumes "tokenize t1 = tokenize t2"
  shows "adverbs (analyze_style t1 threshold) = adverbs (analyze_style t2 threshold)
     \<and> duplicate_words (analyze_repetition t1 max_dup) = duplicate_words (analyze_repetition t2 max_dup)"
  using assms
  by (simp add: analyze_style_def analyze_repetition_def style_adverbs_def
      repetition_dup_words_def Let_def)

lemma sentences_determine:
  assumes "split_sentences t1 = split_sentences t2"
  shows "long_sentences (analyze_style t1 threshold) = long_sentences (analyze_style t2 threshold)
     \<and> passive_voice (analyze_style t1 threshold) = passive_voice (analyze_style t2 threshold)
     \<and> duplicate_sentences (analyze_repetition t1 max_dup)
         = duplicate_sentences (analyze_repetition t2 max_dup)"
  using assms
  by (simp add: analyze_style_def analyze_repetition_def repetition_dup_sentences_def Let_def)

lemma readability_fallback:
  assumes "strip t1 \<noteq> []" and "textstat_readability ts t1 = None"
  shows "lexicon_count (analyze_readability ts t1) = int (length (tokenize t1))
     \<and> sentence_count (analyze_readability ts t1) = int (length (split_sentences t1))"
  using assms by (simp add: analyze_readability_def)

lemma strip_empty_blank: "strip t1 = [] \<Longrightarrow> list_all isspace t1"
proof -
  assume "strip t1 = []"
  then have "dropWhile isspace (rev (dropWhile isspace t1)) = []"
    by (simp add: strip_def)
  then have a: "\<forall>c\<in>set (dropWhile isspace t1). isspace c"
    by (simp del: rev_rev_ident)
  have "dropWhile isspace t1 = []"
  proof (cases "dropWhile isspace t1")
    case Nil
    then show ?thesis .
  next
    case (Cons c cs)
    then have "\<not> isspace c"
      by (metis hd_dropWhile list.distinct(1) list.sel(1))
    with a Cons show ?thesis by simp
  qed
  then show ?thesis
    by (simp add: list_all_iff)
qed

lemma readability_blank:
  assumes "strip t1 = []"
  shows "lexicon_count (analyze_readability ts t1) = 0"
    and "sentence_count (analyze_readability ts t1) = 0"
    and "tokenize t1 = []" and "split_sentences t1 = []"
proof -
  from assms show "lexicon_count (analyze_readability ts t1) = 0"
    and "sentence_count (analyze_readability ts t1) = 0"
    by (simp_all add: analyze_readability_def blank_readability_def)
  from assms have "list_all isspace t1"
    by (rule strip_empty_blank)
  then show "tokenize t1 = []"
    by (intro tokenize_no_letters) (auto simp: list_all_iff dest: space_not_letter)
  from assms show "split_sentences t1 = []"
    by (simp add: split_sentences_def)
qed

lemma readability_success:
  assumes "strip t1 \<noteq> []" and "textstat_readability ts t1 = Some v"
  shows "analyze_readability ts t1 = v"
    and "ts_lexicon_count ts t1 = Some (lexicon_count v)"
    and "ts_sentence_count ts t1 = Some (sentence_count v)"
proof -
  from assms show "analyze_readability ts t1 = v"
    by (simp add: analyze_readability_def)
  from assms(2) show "ts_lexicon_count ts t1 = Some (lexicon_count v)"
    and "ts_sentence_count ts t1 = Some (sentence_count v)"
    by (auto simp: textstat_readability_def bind_eq_Some_conv)
qed

lemma enumerate_index: "enumerate 0 xs = map (\<lambda>i. (i, xs ! i)) [0..<length xs]"
  by (rule nth_equalityI) (simp_all add: nth_enumerate_eq)

lemma long_sentences_index:
  "long_sentences (analyze_style t1 threshold) =
     map (\<lambda>i. \<lparr>long_index = i, long_word_count = length (tokenize (split_sentences t1 ! i)),
               long_text = split_sentences t1 ! i\<rparr>)
         (filter (\<lambda>i. threshold < int (length (tokenize (split_sentences t1 ! i))))
                 [0..<length (split_sentences t1)])"
  by (simp add: analyze_style_def style_long_sentences_def enumerate_index Let_def
      comp_def comprehension_filter)

lemma passive_hits_index:
  assumes "h \<in> set (passive_voice (analyze_style t1 threshold))"
  shows "passive_index h < length (split_sentences t1)
     \<and> passive_sentence h = split_sentences t1 ! passive_index h
     \<and> passive_match h \<in> set (passive_scan None (split_sentences t1 ! passive_index h))"
proof -
  from assms obtain i s m where "(i, s) \<in> set (enumerate 0 (split_sentences t1))"
    and "m \<in> set (passive_scan None s)"
    and "h = \<lparr>passive_index = i, passive_match = m, passive_sentence = s\<rparr>"
    by (auto simp: analyze_style_def style_passive_hits_def Let_def)
  then show ?thesis
    by (auto simp: in_set_enumerate_eq)
qed

lemma duplicate_word_member:
  "e \<in> set (map (\<lambda>(w, pos). \<lparr>dup_word = w, dup_occurrences = pos\<rparr>) l)
     \<longleftrightarrow> (dup_word e, dup_occurrences e) \<in> set l"
  by (cases e) (force simp: image_iff case_prod_unfold)

lemma dup_words_occurrences:
  assumes "e \<in> set (duplicate_words (analyze_repetition t1 max_dup))"
  shows "dup_occurrences e = adjacent_positions (map lower (tokenize t1)) (dup_word e)"
proof -
  let ?l = "filter (\<lambda>(w, pos). pos \<noteq> [])
      (sort_key positions_key (scan_duplicates None 0 (map lower (tokenize t1)) []))"
  from assms have "e \<in> set (map (\<lambda>(w, pos). \<lparr>dup_word = w, dup_occurrences = pos\<rparr>) ?l)"
    by (simp add: analyze_repetition_def repetition_dup_words_def Let_def)
  then have "(dup_word e, dup_occurrences e) \<in> set ?l"
    by (simp only: duplicate_word_member)
  then show ?thesis
    by (simp only: dup_words_entries)
qed

lemma dup_sentences_index:
  assumes "f \<in> set (duplicate_sentences (analyze_repetition t1 max_dup))"
  shows "\<exists>i<length (split_sentences t1). dup_sentence f = split_sentences t1 ! i
     \<and> dup_count f = count_list (normalized t1) (normalized t1 ! i)"
  using assms unfolding duplicate_sentences_first by auto

lemma report_parts:
  assumes "analyze_text libs t1 opts = Inr r"
  shows "report_readability r = analyze_readability (textstat libs) t1"
    and "report_style r = analyze_style t1 (long_sentence_threshold opts)"
    and "report_repetition r = analyze_repetition t1 (max_duplicate_sentences opts)"
    and "analyze_spelling libs t1 (lang opts) = Inr (report_spelling r)"
  using assms by (auto simp: analyze_text_def Let_def split: sum.splits)

lemma spelling_words:
  assumes "analyze_spelling libs t1 lng = Inr sp"
  shows "\<exists>spell. SpellChecker libs lng = Some spell
     \<and> map issue_word (issues sp) = sorted_list_of_set (unknown spell (lower_tokens t1))"
  using assms by (auto simp: analyze_spelling_def Let_def comp_def split: option.splits)

text \<open>
  C1, amended. In every returned report the summary has the numbers of tokens of
  \<open>tokenize\<close> and of sentences of \<open>split_sentences\<close>, and the style, repetition and
  readability parts are those of the three analyses on the same text. The style and
  repetition analyses segment with \<open>split_sentences\<close> and \<open>tokenize\<close>: the long
  sentences are the sentences of \<open>split_sentences\<close> with more tokens than the threshold,
  with their index and that number; a passive-voice hit has an index into
  \<open>split_sentences\<close> and the sentence there; an adverb finding is a lowercased token
  with its number of occurrences; a duplicate-word finding has the positions in the
  lowercased tokens where the word follows itself; a duplicate-sentence finding is a
  sentence of \<open>split_sentences\<close> with the number of sentences of its normalized form;
  and texts with the same tokens (the same sentences) have the same findings of the
  kinds that read tokens (sentences). The readability counts are those of \<open>tokenize\<close>
  and \<open>split_sentences\<close> on blank text, where all are 0, and in the fallback after a
  failure of the readability library on a non-blank text; when the library succeeds
  on a non-blank text they are what its \<open>lexicon_count\<close> and \<open>sentence_count\<close> return.
  The spelling checker does not use \<open>tokenize\<close>: its issue words are the unknown words
  among \<open>lower_tokens\<close>, taken from the matches of \<open>\b\w+\b\<close>; these are the tokens
  of \<open>tokenize\<close> whenever every character of the text is a lowercase ASCII letter or a
  non-word character other than hyphen and apostrophe.
\<close>

theorem segmenter_shared:
  "(analyze_text libs t1 opts = Inr r \<longrightarrow>
       words (report_summary r) = length (tokenize t1)
     \<and> sentences (report_summary r) = length (split_sentences t1)
     \<and> report_readability r = analyze_readability (textstat libs) t1
     \<and> report_style r = analyze_style t1 (long_sentence_threshold opts)
     \<and> report_repetition r = analyze_repetition t1 (max_duplicate_sentences opts)
     \<and> (\<exists>spell. SpellChecker libs (lang opts) = Some spell
           \<and> map issue_word (issues (report_spelling r))
               = sorted_list_of_set (unknown spell (lower_tokens t1))))
   \<and> long_sentences (analyze_style t1 threshold) =
       map (\<lambda>i. \<lparr>long_index = i, long_word_count = length (tokenize (split_sentences t1 ! i)),
                 long_text = split_sentences t1 ! i\<rparr>)
           (filter (\<lambda>i. threshold < int (length (tokenize (split_sentences t1 ! i))))
                   [0..<length (split_sentences t1)])
   \<and> (\<forall>h\<in>set (passive_voice (analyze_style t1 threshold)).
         passive_index h < length (split_sentences t1)
         \<and> passive_sentence h = split_sentences t1 ! passive_index h
         \<and> passive_match h \<in> set (passive_scan None (split_sentences t1 ! passive_index h)))
   \<and> (\<forall>a\<in>set (adverbs (analyze_style t1 threshold)).
         adverb_word a \<in> set (map lower (tokenize t1))
         \<and> adverb_count a = count_list (map lower (tokenize t1)) (adverb_word a))
   \<and> (\<forall>e\<in>set (duplicate_words (analyze_repetition t1 max_dup)).
         dup_occurrences e = adjacent_positions (map lower (tokenize t1)) (dup_word e))
   \<and> (\<forall>f\<in>set (duplicate_sentences (analyze_repetition t1 max_dup)).
         \<exists>i<length (split_sentences t1). dup_sentence f = split_sentences t1 ! i
           \<and> dup_count f = count_list (normalized t1) (normalized t1 ! i))
   \<and> (strip t1 = [] \<longrightarrow>
         lexicon_count (analyze_readability ts t1) = 0
         \<and> sentence_count (analyze_readability ts t1) = 0
         \<and> tokenize t1 = [] \<and> split_sentences t1 = [])
   \<and> (strip t1 \<noteq> [] \<and> textstat_readability ts t1 = None \<longrightarrow>
         lexicon_count (analyze_readability ts t1) = int (length (tokenize t1))
         \<and> sentence_count (analyze_readability ts t1) = int (length (split_sentences t1)))
   \<and> (strip t1 \<noteq> [] \<and> textstat_readability ts t1 = Some v \<longrightarrow>
         analyze_readability ts t1 = v
         \<and> ts_lexicon_count ts t1 = Some (lexicon_count v)
         \<and> ts_sentence_count ts t1 = Some (sentence_count v))
   \<and> (tokenize t1 = tokenize t2 \<longrightarrow>
         adverbs (analyze_style t1 threshold) = adverbs (analyze_style t2 threshold)
         \<and> duplicate_words (analyze_repetition t1 max_dup)
             = duplicate_words (analyze_repetition t2 max_dup))
   \<and> (split_sentences t1 = split_sentences t2 \<longrightarrow>
         long_sentences (analyze_style t1 threshold) = long_sentences (analyze_style t2 threshold)
         \<and> passive_voice (analyze_style t1 threshold) = passive_voice (analyze_style t2 threshold)
         \<and> duplicate_sentences (analyze_repetition t1 max_dup)
             = duplicate_sentences (analyze_repetition t2 max_dup))
   \<and> ((\<forall>c\<in>set t1. plain_char c) \<longrightarrow> lower_tokens t1 = tokenize t1)"
proof -
  have p1: "analyze_text libs t1 opts = Inr r \<longrightarrow>
       words (report_summary r) = length (tokenize t1)
     \<and> sentences (report_summary r) = length (split_sentences t1)
     \<and> report_readability r = analyze_readability (textstat libs) t1
     \<and> report_style r = analyze_style t1 (long_sentence_threshold opts)
     \<and> report_repetition r = analyze_repetition t1 (max_duplicate_sentences opts)
     \<and> (\<exists>spell. SpellChecker libs (lang opts) = Some spell
           \<and> map issue_word (issues (report_spelling r))
               = sorted_list_of_set (unknown spell (lower_tokens t1)))"
  proof
    assume a: "analyze_text libs t1 opts = Inr r"
    have "words (report_summary r) = length (tokenize t1)"
      and "sentences (report_summary r) = length (split_sentences t1)"
      using analyze_text_cases(2) [OF a] by simp_all
    moreover note report_parts(1-3) [OF a]
    moreover have "\<exists>spell. SpellChecker libs (lang opts) = Some spell
           \<and> map issue_word (issues (report_spelling r))
               = sorted_list_of_set (unknown spell (lower_tokens t1))"
      using report_parts(4) [OF a] by (rule spelling_words)
    ultimately show "words (report_summary r) = length (tokenize t1)
     \<and> sentences (report_summary r) = length (split_sentences t1)
     \<and> report_readability r = analyze_readability (textstat libs) t1
     \<and> report_style r = analyze_style t1 (long_sentence_threshold opts)
     \<and> report_repetition r = analyze_repetition t1 (max_duplicate_sentences opts)
     \<and> (\<exists>spell. SpellChecker libs (lang opts) = Some spell
           \<and> map issue_word (issues (report_spelling r))
               = sorted_list_of_set (unknown spell (lower_tokens t1)))"
      by (intro conjI)
  qed
  note p2 = long_sentences_index [of t1 threshold]
  have p3: "\<forall>h\<in>set (passive_voice (analyze_style t1 threshold)).
         passive_index h < length (split_sentences t1)
         \<and> passive_sentence h = split_sentences t1 ! passive_index h
         \<and> passive_match h \<in> set (passive_scan None (split_sentences t1 ! passive_index h))"
    by (rule ballI) (rule passive_hits_index)
  have p4: "\<forall>a\<in>set (adverbs (analyze_style t1 threshold)).
         adverb_word a \<in> set (map lower (tokenize t1))
         \<and> adverb_count a = count_list (map lower (tokenize t1)) (adverb_word a)"
  proof
    fix a
    assume "a \<in> set (adverbs (analyze_style t1 threshold))"
    then have "a \<in> set (style_adverbs t1)"
      by (simp add: analyze_style_def Let_def)
    from this [unfolded style_adverbs_member]
    show "adverb_word a \<in> set (map lower (tokenize t1))
         \<and> adverb_count a = count_list (map lower (tokenize t1)) (adverb_word a)"
      by blast
  qed
  have p5: "\<forall>e\<in>set (duplicate_words (analyze_repetition t1 max_dup)).
         dup_occurrences e = adjacent_positions (map lower (tokenize t1)) (dup_word e)"
    by (rule ballI) (rule dup_words_occurrences)
  have p6: "\<forall>f\<in>set (duplicate_sentences (analyze_repetition t1 max_dup)).
         \<exists>i<length (split_sentences t1). dup_sentence f = split_sentences t1 ! i
           \<and> dup_count f = count_list (normalized t1) (normalized t1 ! i)"
    by (rule ballI) (rule dup_sentences_index)
  have p7: "strip t1 = [] \<longrightarrow>
         lexicon_count (analyze_readability ts t1) = 0
         \<and> sentence_count (analyze_readability ts t1) = 0
         \<and> tokenize t1 = [] \<and> split_sentences t1 = []"
    using readability_blank by blast
  have p8: "strip t1 \<noteq> [] \<and> textstat_readability ts t1 = None \<longrightarrow>
         lexicon_count (analyze_readability ts t1) = int (length (tokenize t1))
         \<and> sentence_count (analyze_readability ts t1) = int (length (split_sentences t1))"
    using readability_fallback [of t1 ts] by blast
  have p9: "strip t1 \<noteq> [] \<and> textstat_readability ts t1 = Some v \<longrightarrow>
         analyze_readability ts t1 = v
         \<and> ts_lexicon_count ts t1 = Some (lexicon_count v)
         \<and> ts_sentence_count ts t1 = Some (sentence_count v)"
    using readability_success by blast
  have p10: "tokenize t1 = tokenize t2 \<longrightarrow>
         adverbs (analyze_style t1 threshold) = adverbs (analyze_style t2 threshold)
         \<and> duplicate_words (analyze_repetition t1 max_dup)
             = duplicate_words (analyze_repetition t2 max_dup)"
    using tokens_determine [of t1 t2 threshold max_dup] by blast
  have p11: "split_sentences t1 = split_sentences t2 \<longrightarrow>
         long_sentences (analyze_style t1 threshold) = long_sentences (analyze_style t2 threshold)
         \<and> passive_voice (analyze_style t1 threshold) = passive_voice (analyze_style t2 threshold)
         \<and> duplicate_sentences (analyze_repetition t1 max_dup)
             = duplicate_sentences (analyze_repetition t2 max_dup)"
    using sentences_determine [of t1 t2 threshold max_dup] by blast
  have p12: "(\<forall>c\<in>set t1. plain_char c) \<longrightarrow> lower_tokens t1 = tokenize t1"
    using lower_tokens_plain [of t1] by blast
  from p1 p2 p3 p4 p5 p6 p7 p8 p9 p10 p11 p12 show ?thesis
    by (intro conjI)
qed


theorem segmenter_shared_witness:
  "(\<exists>r. analyze_text sample_libraries sample_text sample_options = Inr r
        \<and> words (report_summary r) = 10 \<and> sentences (report_summary r) = 2)
   \<and> map long_index (long_sentences (analyze_style sample_text 3)) = [0, 1]
   \<and> adverbs (analyze_style sample_text 3) = [\<lparr>adverb_word = ''really'', adverb_count = 4\<rparr>]
   \<and> count_list (map lower (tokenize sample_text)) ''really'' = 4
   \<and> duplicate_words (analyze_repetition sample_text 1)
       = [\<lparr>dup_word = ''really'', dup_occurrences = [4, 9]\<rparr>]
   \<and> adjacent_positions (map lower (tokenize sample_text)) ''really'' = [4, 9]
   \<and> strip '' '' = [] \<and> lexicon_count (analyze_readability sample_textstat '' '') = 0
   \<and> strip sample_text \<noteq> [] \<and> textstat_readability sample_textstat sample_text = None
   \<and> lexicon_count (analyze_readability sample_textstat sample_text) = 10
   \<and> lexicon_count (analyze_readability sample_textstat_counts sample_text) = 99
   \<and> tokenize sample_text = tokenize (CHR '' '' # sample_text)
   \<and> adverbs (analyze_style sample_text 3) = adverbs (analyze_style (CHR '' '' # sample_text) 3)
   \<and> list_all plain_char sample_text
   \<and> lower_tokens sample_text = tokenize sample_text"
proof -
  let ?v = "\<lparr>flesch_reading_ease = Some 0, flesch_kincaid_grade = Some 0,
      gunning_fog = Some 0, smog_index = Some 0, automated_readability_index = Some 0,
      coleman_liau_index = Some 0, dale_chall = Some 0, difficult_words = Some 0,
      polysyllables = Some 0, lexicon_count = 99, sentence_count = 7\<rparr> :: int readability"
  have sp: "\<exists>sp. analyze_spelling sample_libraries sample_text ''en'' = Inr sp"
    by (simp add: analyze_spelling_def sample_libraries_def Let_def)
  then obtain r where r: "analyze_text sample_libraries sample_text sample_options = Inr r"
    by (auto simp: analyze_text_def Let_def sample_options_def)
  note t = segmenter_shared [where libs = sample_libraries and ?t1.0 = sample_text
      and ?t2.0 = "CHR '' '' # sample_text" and opts = sample_options and r = r
      and threshold = 3 and max_dup = 1 and ts = sample_textstat]
  note u = segmenter_shared [where ?t1.0 = sample_text and ts = sample_textstat_counts and v = ?v]
  note b = segmenter_shared [where ?t1.0 = "'' ''" and ts = sample_textstat]
  have n: "length (tokenize sample_text) = 10"
    by code_simp
  have m: "length (split_sentences sample_text) = 2"
    by code_simp
  from t [THEN conjunct1] r
  have "words (report_summary r) = length (tokenize sample_text)"
    and "sentences (report_summary r) = length (split_sentences sample_text)"
    by blast+
  with r have c1: "\<exists>r. analyze_text sample_libraries sample_text sample_options = Inr r
        \<and> words (report_summary r) = 10 \<and> sentences (report_summary r) = 2"
    by (simp only: n m) blast
  have c2: "map long_index (long_sentences (analyze_style sample_text 3)) = [0, 1]"
    by code_simp
  have c3: "adverbs (analyze_style sample_text 3) = [\<lparr>adverb_word = ''really'', adverb_count = 4\<rparr>]"
    by code_simp
  from t [THEN conjunct2, THEN conjunct2, THEN conjunct2, THEN conjunct1] have "\<forall>a\<in>set (adverbs (analyze_style sample_text 3)).
         adverb_word a \<in> set (map lower (tokenize sample_text))
         \<and> adverb_count a = count_list (map lower (tokenize sample_text)) (adverb_word a)"
    .
  then have "adverb_count \<lparr>adverb_word = ''really'', adverb_count = 4\<rparr>
      = count_list (map lower (tokenize sample_text)) (adverb_word \<lparr>adverb_word = ''really'', adverb_count = 4\<rparr>)"
    unfolding c3 by simp
  then have c4: "count_list (map lower (tokenize sample_text)) ''really'' = 4"
    by (simp only: adverb.select_convs)
  have c5: "duplicate_words (analyze_repetition sample_text 1)
       = [\<lparr>dup_word = ''really'', dup_occurrences = [4, 9]\<rparr>]"
    by code_simp
  from t [THEN conjunct2, THEN conjunct2, THEN conjunct2, THEN conjunct2, THEN conjunct1] have "\<forall>e\<in>set (duplicate_words (analyze_repetition sample_text 1)).
         dup_occurrences e = adjacent_positions (map lower (tokenize sample_text)) (dup_word e)"
    .
  then have "dup_occurrences \<lparr>dup_word = ''really'', dup_occurrences = [4, 9]\<rparr>
      = adjacent_positions (map lower (tokenize sample_text))
          (dup_word \<lparr>dup_word = ''really'', dup_occurrences = [4, 9]\<rparr>)"
    unfolding c5 by simp
  then have c6: "adjacent_positions (map lower (tokenize sample_text)) ''really'' = [4, 9]"
    by (simp only: duplicate_word.select_convs)
  have c7: "strip '' '' = []"
    by code_simp
  from b [THEN conjunct2, THEN conjunct2, THEN conjunct2, THEN conjunct2, THEN conjunct2, THEN conjunct2, THEN conjunct1] have "strip '' '' = [] \<longrightarrow>
         lexicon_count (analyze_readability sample_textstat '' '') = 0
         \<and> sentence_count (analyze_readability sample_textstat '' '') = 0
         \<and> tokenize '' '' = [] \<and> split_sentences '' '' = []"
    .
  from this c7 have "lexicon_count (analyze_readability sample_textstat '' '') = 0
         \<and> sentence_count (analyze_readability sample_textstat '' '') = 0
         \<and> tokenize '' '' = [] \<and> split_sentences '' '' = []"
    by (rule mp)
  then have c8: "lexicon_count (analyze_readability sample_textstat '' '') = 0"
    by (rule conjunct1)
  have c9: "strip sample_text \<noteq> []"
    by code_simp
  have c10: "textstat_readability sample_textstat sample_text = None"
    by (simp add: textstat_readability_def sample_textstat_def)
  from t [THEN conjunct2, THEN conjunct2, THEN conjunct2, THEN conjunct2, THEN conjunct2, THEN conjunct2, THEN conjunct2, THEN conjunct1] have "strip sample_text \<noteq> [] \<and> textstat_readability sample_textstat sample_text = None \<longrightarrow>
         lexicon_count (analyze_readability sample_textstat sample_text) = int (length (tokenize sample_text))
         \<and> sentence_count (analyze_readability sample_textstat sample_text)
             = int (length (split_sentences sample_text))"
    .
  moreover from c9 c10 have "strip sample_text \<noteq> [] \<and> textstat_readability sample_textstat sample_text = None"
    by (rule conjI)
  ultimately have "lexicon_count (analyze_readability sample_textstat sample_text) = int (length (tokenize sample_text))
         \<and> sentence_count (analyze_readability sample_textstat sample_text)
             = int (length (split_sentences sample_text))"
    by (rule mp)
  then have c11: "lexicon_count (analyze_readability sample_textstat sample_text) = 10"
    by (simp add: n)
  have s: "textstat_readability sample_textstat_counts sample_text = Some ?v"
    by (simp add: textstat_readability_def sample_textstat_counts_def)
  from u [THEN conjunct2, THEN conjunct2, THEN conjunct2, THEN conjunct2, THEN conjunct2, THEN conjunct2, THEN conjunct2, THEN conjunct2, THEN conjunct1] have "strip sample_text \<noteq> [] \<and> textstat_readability sample_textstat_counts sample_text = Some ?v \<longrightarrow>
         analyze_readability sample_textstat_counts sample_text = ?v
         \<and> ts_lexicon_count sample_textstat_counts sample_text = Some (lexicon_count ?v)
         \<and> ts_sentence_count sample_textstat_counts sample_text = Some (sentence_count ?v)"
    .
  moreover from c9 s have "strip sample_text \<noteq> [] \<and> textstat_readability sample_textstat_counts sample_text = Some ?v"
    by (rule conjI)
  ultimately have "analyze_readability sample_textstat_counts sample_text = ?v
         \<and> ts_lexicon_count sample_textstat_counts sample_text = Some (lexicon_count ?v)
         \<and> ts_sentence_count sample_textstat_counts sample_text = Some (sentence_count ?v)"
    by (rule mp)
  then have "analyze_readability sample_textstat_counts sample_text = ?v"
    by (rule conjunct1)
  then have c12: "lexicon_count (analyze_readability sample_textstat_counts sample_text) = 99"
    by simp
  have c13: "tokenize sample_text = tokenize (CHR '' '' # sample_text)"
    by code_simp
  from t [THEN conjunct2, THEN conjunct2, THEN conjunct2, THEN conjunct2, THEN conjunct2, THEN conjunct2, THEN conjunct2, THEN conjunct2, THEN conjunct2, THEN conjunct1] have "tokenize sample_text = tokenize (CHR '' '' # sample_text) \<longrightarrow>
         adverbs (analyze_style sample_text 3) = adverbs (analyze_style (CHR '' '' # sample_text) 3)
         \<and> duplicate_words (analyze_repetition sample_text 1)
             = duplicate_words (analyze_repetition (CHR '' '' # sample_text) 1)"
    .
  from this c13 have "adverbs (analyze_style sample_text 3) = adverbs (analyze_style (CHR '' '' # sample_text) 3)
         \<and> duplicate_words (analyze_repetition sample_text 1)
             = duplicate_words (analyze_repetition (CHR '' '' # sample_text) 1)"
    by (rule mp)
  then have c14: "adverbs (analyze_style sample_text 3) = adverbs (analyze_style (CHR '' '' # sample_text) 3)"
    by (rule conjunct1)
  have c15: "list_all plain_char sample_text"
    by code_simp
  then have "\<forall>c\<in>set sample_text. plain_char c"
    by (simp only: list_all_iff)
  moreover from t [THEN conjunct2, THEN conjunct2, THEN conjunct2, THEN conjunct2, THEN conjunct2, THEN conjunct2, THEN conjunct2, THEN conjunct2, THEN conjunct2, THEN conjunct2, THEN conjunct2] have "(\<forall>c\<in>set sample_text. plain_char c) \<longrightarrow> lower_tokens sample_text = tokenize sample_text"
    .
  ultimately have c16: "lower_tokens sample_text = tokenize sample_text"
    by (rule mp [rotated])
  from c1 c2 c3 c4 c5 c6 c7 c8 c9 c10 c11 c12 c13 c14 c15 c16 show ?thesis
    by (intro conjI)
qed

end
